theory Spec2Isabelle
  imports Complex_Main
begin

section \<open>Backend arrays\<close>

text \<open>
  The array backend (\<open>phi.math\<close>, NumPy by default) is imported by \<open>gridliquid.py\<close> but is not
  part of the sources at hand.  Its operations are modelled with NumPy's semantics: an array is a
  shape together with a function from multi-indices to entries; only the entries at indices
  inside the shape are meaningful.  Entries are real numbers, so rounding is not modelled.
\<close>

record 'a tensor =
  shape :: "nat list"
  el :: "nat list \<Rightarrow> 'a"

definition valid :: "nat list \<Rightarrow> nat list \<Rightarrow> bool" where
  "valid s idx \<longleftrightarrow> list_all2 (\<lambda>i n. i < n) idx s"



definition spatial_rank :: "'a tensor \<Rightarrow> nat" where
  "spatial_rank t = length (shape t) - 2"

subsection \<open>Broadcasting element-wise operations\<close>

definition bdim :: "nat \<Rightarrow> nat \<Rightarrow> nat" where
  "bdim a b = (if a = 1 then b else a)"

definition bshape :: "nat list \<Rightarrow> nat list \<Rightarrow> nat list" where
  "bshape s1 s2 = map2 bdim s1 s2"

definition bidx :: "nat list \<Rightarrow> nat list \<Rightarrow> nat list" where
  "bidx s idx = map2 (\<lambda>n i. if n = 1 then 0 else i) s idx"

definition rd :: "'a tensor \<Rightarrow> nat list \<Rightarrow> 'a" where
  "rd t idx = el t (bidx (shape t) idx)"

definition tmap :: "('a \<Rightarrow> 'b) \<Rightarrow> 'a tensor \<Rightarrow> 'b tensor" where
  "tmap f t = \<lparr>shape = shape t, el = (\<lambda>idx. f (el t idx))\<rparr>"

definition tmap2 :: "('a \<Rightarrow> 'b \<Rightarrow> 'c) \<Rightarrow> 'a tensor \<Rightarrow> 'b tensor \<Rightarrow> 'c tensor" where
  "tmap2 f a b = \<lparr>shape = bshape (shape a) (shape b), el = (\<lambda>idx. f (rd a idx) (rd b idx))\<rparr>"

definition where3 :: "bool tensor \<Rightarrow> 'a tensor \<Rightarrow> 'a tensor \<Rightarrow> 'a tensor" where
  "where3 c a b =
     \<lparr>shape = bshape (bshape (shape c) (shape a)) (shape b),
      el = (\<lambda>idx. if rd c idx then rd a idx else rd b idx)\<rparr>"

definition tscale :: "real \<Rightarrow> real tensor \<Rightarrow> real tensor" where
  "tscale c t = tmap (\<lambda>x. c * x) t"

definition tabs :: "real tensor \<Rightarrow> real tensor" where
  "tabs t = tmap abs t"

definition zeros :: "nat list \<Rightarrow> real tensor" where
  "zeros s = \<lparr>shape = s, el = (\<lambda>idx. 0)\<rparr>"

definition zeros_like :: "'a tensor \<Rightarrow> real tensor" where
  "zeros_like t = zeros (shape t)"

definition ones_like :: "'a tensor \<Rightarrow> real tensor" where
  "ones_like t = \<lparr>shape = shape t, el = (\<lambda>idx. 1)\<rparr>"


subsection \<open>Slicing and padding\<close>

text \<open>A Python slice \<open>slice(start, stop)\<close> with step 1; \<open>None\<close> is an omitted bound and a
  negative bound counts from the end.\<close>

datatype slice = Slice "int option" "int option"

definition slice_bound :: "nat \<Rightarrow> int \<Rightarrow> nat" where
  "slice_bound n k = (if k < 0 then nat (int n + k) else min (nat k) n)"

fun slice_start :: "nat \<Rightarrow> slice \<Rightarrow> nat" where
  "slice_start n (Slice a b) = (case a of None \<Rightarrow> 0 | Some k \<Rightarrow> slice_bound n k)"

fun slice_stop :: "nat \<Rightarrow> slice \<Rightarrow> nat" where
  "slice_stop n (Slice a b) = (case b of None \<Rightarrow> n | Some k \<Rightarrow> slice_bound n k)"

definition slice_len :: "nat \<Rightarrow> slice \<Rightarrow> nat" where
  "slice_len n sl = slice_stop n sl - slice_start n sl"

definition getitem :: "'a tensor \<Rightarrow> slice list \<Rightarrow> 'a tensor" where
  "getitem t sls =
     \<lparr>shape = map2 slice_len (shape t) sls,
      el = (\<lambda>idx. el t (map2 (+) (map2 slice_start (shape t) sls) idx))\<rparr>"

datatype pad_mode = Constant | Symmetric

text \<open>Source position of position \<open>j\<close> of an axis of length \<open>n\<close> padded in front by \<open>b\<close>, in
  mode "symmetric" (mirror image including the edge entry; pad widths up to \<open>n\<close>).\<close>

definition sym_src :: "nat \<Rightarrow> nat \<Rightarrow> nat \<Rightarrow> nat" where
  "sym_src n b j =
     (if j < b then b - 1 - j else if j < b + n then j - b else n - 1 - (j - b - n))"

definition inside :: "nat \<Rightarrow> nat \<Rightarrow> nat \<Rightarrow> bool" where
  "inside n b j \<longleftrightarrow> b \<le> j \<and> j < b + n"

definition pad :: "real tensor \<Rightarrow> (nat \<times> nat) list \<Rightarrow> pad_mode \<Rightarrow> real tensor" where
  "pad t pw mode =
     \<lparr>shape = map2 (\<lambda>n (b, a). b + n + a) (shape t) pw,
      el = (case mode of
              Symmetric \<Rightarrow>
                (\<lambda>idx. el t (map2 (\<lambda>(n, (b, a)) j. sym_src n b j) (zip (shape t) pw) idx))
            | Constant \<Rightarrow>
                (\<lambda>idx. if list_all2 (\<lambda>(n, (b, a)) j. inside n b j) (zip (shape t) pw) idx
                        then el t (map2 (\<lambda>(n, (b, a)) j. j - b) (zip (shape t) pw) idx)
                        else 0))\<rparr>"

text \<open>Concatenation of truth-valued arrays along the last axis.\<close>

fun concat_at :: "bool tensor list \<Rightarrow> nat list \<Rightarrow> nat \<Rightarrow> bool" where
  "concat_at [] pre k = False"
| "concat_at (t # ts) pre k =
     (if k < last (shape t) then el t (pre @ [k]) else concat_at ts pre (k - last (shape t)))"

definition concat_last :: "bool tensor list \<Rightarrow> bool tensor" where
  "concat_last ts =
     \<lparr>shape = butlast (shape (hd ts)) @ [sum_list (map (\<lambda>t. last (shape t)) ts)],
      el = (\<lambda>idx. concat_at ts (butlast idx) (last idx))\<rparr>"

section \<open>Masks\<close>

datatype error = ValueError | AssertionError | IndexError

text \<open>A field is either a plain backend array (centered samples) or a \<open>StaggeredGrid\<close>
  wrapping its \<open>staggered\<close> array.\<close>

datatype field = Centered "real tensor" | Staggered "real tensor"

fun field_tensor :: "field \<Rightarrow> real tensor" where
  "field_tensor (Centered t) = t"
| "field_tensor (Staggered s) = s"

fun is_staggered :: "field \<Rightarrow> bool" where
  "is_staggered (Centered t) = False"
| "is_staggered (Staggered s) = True"


definition full :: slice where
  "full = Slice None None"

definition surface_axis :: "real tensor \<Rightarrow> nat list \<Rightarrow> nat \<Rightarrow> real tensor \<Rightarrow> real tensor" where
  "surface_axis mask_p dims d bcs =
     (let upper_slices = map (\<lambda>i. if i = d then Slice (Some 2) None
                                   else Slice (Some 1) (Some (- 1))) dims;
          center_slices = map (\<lambda>i. Slice (Some 1) (Some (- 1))) dims;
          lower_slices = map (\<lambda>i. if i = d then Slice (Some 0) (Some (- 2))
                                   else Slice (Some 1) (Some (- 1))) dims;
          upper = getitem mask_p ([full] @ upper_slices @ [full]);
          center = getitem mask_p ([full] @ center_slices @ [full]);
          lower = getitem mask_p ([full] @ lower_slices @ [full]);
          bc_d = tmap2 (-) (tmap2 max upper center) upper;
          bcs = tmap2 max bcs bc_d;
          bc_d = tmap2 (-) (tmap2 max center lower) lower;
          bcs = tmap2 max bcs bc_d
      in bcs)"

definition create_surface_mask :: "real tensor \<Rightarrow> real tensor" where
  "create_surface_mask particle_mask =
     (let mask_p = pad particle_mask
                   ([(0, 0)] @ replicate (spatial_rank particle_mask) (1, 1) @ [(0, 0)])
                   Symmetric;
          dims = [0..<spatial_rank mask_p];
          bcs = zeros_like particle_mask
      in fold (surface_axis mask_p dims) dims bcs)"

section \<open>Extrapolation\<close>

text \<open>\<open>itertools.product\<close> of \<open>(-1, 0, 1)\<close> taken once per spatial axis, in its lexicographic
  order.\<close>

definition directions :: "nat \<Rightarrow> int list list" where
  "directions r = List.product_lists (replicate r [- 1, 0, 1])"

definition dot :: "int list \<Rightarrow> int list \<Rightarrow> int" where
  "dot a b = sum_list (map2 (*) a b)"

text \<open>The field shifted in direction \<open>d\<close>: padded symmetrically by one entry on the side the
  shift comes from and cut back to the original extent.\<close>

definition shifted :: "real tensor \<Rightarrow> nat list \<Rightarrow> int list \<Rightarrow> real tensor" where
  "shifted t dims d =
     (let d_slice = map (\<lambda>i. if d ! i = - 1 then Slice (Some 1) None
                              else if d ! i = 1 then Slice (Some 0) (Some (- 1))
                              else Slice None None) dims;
          padded = pad t ([(0, 0)] @ map (\<lambda>i. if d ! i = - 1 then (0, 1)
                                              else if d ! i = 1 then (1, 0)
                                              else (0, 0)) dims @ [(0, 0)]) Symmetric
      in getitem padded ([full] @ d_slice @ [full]))"

definition shifted_dist :: "real \<Rightarrow> real tensor \<Rightarrow> real tensor \<Rightarrow> nat list \<Rightarrow> int list \<Rightarrow> real tensor" where
  "shifted_dist dx signs s_distance dims d =
     tmap2 (+) (shifted s_distance dims d) (tscale (dx * sqrt (real_of_int (dot d d))) signs)"

definition improves :: "real tensor \<Rightarrow> real tensor \<Rightarrow> real tensor \<Rightarrow> bool tensor" where
  "improves d_dist s_distance signs =
     tmap2 (\<and>) (tmap2 (<) (tabs d_dist) (tabs s_distance)) (tmap (\<lambda>s. s \<ge> 0) signs)"

text \<open>Body of the loop over the directions in the pass for staggered grids (lines 287 to 309).\<close>

definition prime_step ::
  "real \<Rightarrow> real tensor \<Rightarrow> nat list \<Rightarrow> int list \<Rightarrow> real tensor \<times> real tensor \<Rightarrow> real tensor \<times> real tensor" where
  "prime_step dx signs dims d st =
     (case st of (ext_field, s_distance) \<Rightarrow>
      if list_all (\<lambda>x. x \<le> 0) d then (ext_field, s_distance)
      else
        let d_field = shifted ext_field dims d;
            d_dist = shifted_dist dx signs s_distance dims d
        in if dot d d = 1 \<and> list_all (\<lambda>x. x \<ge> 0) d then
             let updates = improves d_dist s_distance signs;
                 ext_field = where3 (concat_last (map (\<lambda>i. if d ! i = 1
                                                            then tmap (\<lambda>z. z \<noteq> 0) (zeros_like updates)
                                                            else updates) dims))
                               d_field ext_field;
                 s_distance = where3 updates d_dist s_distance
             in (ext_field, s_distance)
           else (ext_field, s_distance))"

text \<open>Body of the loop over the directions in one relaxation sweep (lines 313 to 330).\<close>

definition relax_step ::
  "real \<Rightarrow> real tensor \<Rightarrow> nat list \<Rightarrow> int list \<Rightarrow> real tensor \<times> real tensor \<Rightarrow> real tensor \<times> real tensor" where
  "relax_step dx signs dims d st =
     (case st of (ext_field, s_distance) \<Rightarrow>
      if list_all (\<lambda>x. x = 0) d then (ext_field, s_distance)
      else
        let d_field = shifted ext_field dims d;
            d_dist = shifted_dist dx signs s_distance dims d;
            updates = improves d_dist s_distance signs;
            ext_field = where3 (concat_last (replicate (spatial_rank ext_field) updates))
                          d_field ext_field;
            s_distance = where3 updates d_dist s_distance
        in (ext_field, s_distance))"

definition sweep ::
  "real \<Rightarrow> real tensor \<Rightarrow> nat list \<Rightarrow> int list list \<Rightarrow> real tensor \<times> real tensor \<Rightarrow> real tensor \<times> real tensor" where
  "sweep dx signs dims dirs st = fold (relax_step dx signs dims) dirs st"

fun sweeps ::
  "nat \<Rightarrow> real \<Rightarrow> real tensor \<Rightarrow> nat list \<Rightarrow> int list list \<Rightarrow> real tensor \<times> real tensor \<Rightarrow> real tensor \<times> real tensor" where
  "sweeps 0 dx signs dims dirs st = st"
| "sweeps (Suc n) dx signs dims dirs st = sweeps n dx signs dims dirs (sweep dx signs dims dirs st)"

text \<open>The occupancy mask as \<open>extrapolate\<close> uses it: for a staggered grid it is padded with one
  empty entry at the upper end of every spatial axis.\<close>

definition ext_mask :: "field \<Rightarrow> real tensor \<Rightarrow> real tensor" where
  "ext_mask input_field particle_mask =
     (if is_staggered input_field
      then pad particle_mask
             ([(0, 0)] @ replicate (spatial_rank (field_tensor input_field)) (0, 1) @ [(0, 0)])
             Constant
      else particle_mask)"

definition sign_of :: "real tensor \<Rightarrow> real tensor" where
  "sign_of particle_mask = tmap (\<lambda>m. - 1 * (2 * m - 1)) particle_mask"

definition initial_distance :: "real tensor \<Rightarrow> int \<Rightarrow> real tensor" where
  "initial_distance particle_mask distance =
     (let s_distance = tmap (\<lambda>m. - 2 * (real_of_int distance + 1) * (2 * m - 1)) particle_mask;
          surface_mask = create_surface_mask particle_mask
      in where3 (tmap (\<lambda>s. s \<ge> 1) surface_mask) (tscale 0 (ones_like s_distance)) s_distance)"

definition extrapolate :: "field \<Rightarrow> real tensor \<Rightarrow> real \<Rightarrow> int \<Rightarrow> real tensor \<times> field" where
  "extrapolate input_field particle_mask dx distance =
     (let ext_field = (case input_field of Staggered s \<Rightarrow> s | Centered t \<Rightarrow> tscale 1 t);
          particle_mask = ext_mask input_field particle_mask;
          dims = [0..<spatial_rank (field_tensor input_field)];
          s_distance = initial_distance particle_mask distance;
          signs = sign_of particle_mask;
          dirs = directions (length dims);
          st = (if is_staggered input_field
                then fold (prime_step dx signs dims) dirs (ext_field, s_distance)
                else (ext_field, s_distance));
          st = sweeps (nat distance) dx signs dims dirs st
      in case st of (ext_field, s_distance) \<Rightarrow>
           if is_staggered input_field
           then (getitem s_distance
                   ([full] @ map (\<lambda>i. Slice (Some 0) (Some (- 1))) dims @ [full]),
                 Staggered ext_field)
           else (s_distance, Centered ext_field))"

subsection \<open>A sweep that reads from its starting snapshot\<close>

text \<open>Modelled from the spec: "all offsets within one sweep read from the sweep's starting
  snapshot". \<open>snapshot_step\<close> is \<open>relax_step\<close> with the shifted field and the shifted distance
  taken from a given pair \<open>snap\<close> instead of the running pair; the comparison and the overwrite
  still act on the running pair. \<open>snapshot_sweep\<close> hands every offset the pair the sweep
  started from. It is compared with \<open>sweep\<close>, which is the loop of the source.\<close>

definition snapshot_step ::
  "real \<Rightarrow> real tensor \<Rightarrow> nat list \<Rightarrow> real tensor \<times> real tensor \<Rightarrow> int list
     \<Rightarrow> real tensor \<times> real tensor \<Rightarrow> real tensor \<times> real tensor" where
  "snapshot_step dx signs dims snap d st =
     (case snap of (snap_field, snap_distance) \<Rightarrow>
      case st of (ext_field, s_distance) \<Rightarrow>
      if list_all (\<lambda>x. x = 0) d then (ext_field, s_distance)
      else
        let d_field = shifted snap_field dims d;
            d_dist = shifted_dist dx signs snap_distance dims d;
            updates = improves d_dist s_distance signs;
            ext_field = where3 (concat_last (replicate (spatial_rank ext_field) updates))
                          d_field ext_field;
            s_distance = where3 updates d_dist s_distance
        in (ext_field, s_distance))"

definition snapshot_sweep ::
  "real \<Rightarrow> real tensor \<Rightarrow> nat list \<Rightarrow> int list list \<Rightarrow> real tensor \<times> real tensor \<Rightarrow> real tensor \<times> real tensor" where
  "snapshot_sweep dx signs dims dirs st = fold (snapshot_step dx signs dims st) dirs st"

section \<open>Liquid state, domain cache and collaborators\<close>

record 'geom obstacle =
  o_geometry :: 'geom

record 'geom inflow_src =
  geometry :: 'geom
  rate :: real

text \<open>A \<open>DomainCache\<close> object: the constructor call of line 28 stores the domain, the obstacles
  and the two masks; \<open>active()\<close> reads the attribute \<open>_active\<close> that line 46 assigns.\<close>

record ('dom, 'geom) domaincache =
  dc_domain :: 'dom
  dc_obstacles :: "'geom obstacle list"
  dc_active :: "real tensor"
  dc_accessible :: "real tensor"


text \<open>A \<open>GridLiquid\<close> state object with its attributes.\<close>

record 'dom gridliquid =
  st_domain :: 'dom
  density :: "real tensor"
  velocity :: field
  gravity :: "real list"
  age :: real
  domaincache :: "nat option"
  last_pressure :: "real tensor option"
  last_pressure_iterations :: "nat option"

datatype 'dom obj = StateObj "'dom gridliquid" | FieldObj field

text \<open>The classes and functions that \<open>gridliquid.py\<close> imports from the rest of the package
  (\<open>Domain\<close>, \<open>Grid\<close>, \<open>DomainCache\<close>, \<open>StaggeredGrid\<close>, geometries, the pressure solvers) are
  not among the sources; what the code calls on them is a parameter of the model.  The methods
  of \<open>StaggeredGrid\<close> (\<open>divergence\<close>, \<open>gradient\<close>, subtraction, \<open>advect\<close>) and
  \<open>with_hard_boundary_conditions\<close> take and return the staggered array of the grid they stand
  for.\<close>

record ('dom, 'grid, 'geom, 'solver) env =
  domain_grid :: "'dom \<Rightarrow> 'grid"
  grid_shape :: "'grid \<Rightarrow> nat list"
  center_points :: "'grid \<Rightarrow> real tensor"
  geometry_mask :: "'geom list \<Rightarrow> 'grid \<Rightarrow> real tensor"
  value_at :: "'geom \<Rightarrow> real tensor \<Rightarrow> real tensor"
  is_valid :: "('dom, 'geom) domaincache \<Rightarrow> 'geom obstacle list \<Rightarrow> bool"
  cache_rank :: "('dom, 'geom) domaincache \<Rightarrow> nat"
  with_hard_boundary_conditions :: "('dom, 'geom) domaincache \<Rightarrow> real tensor \<Rightarrow> real tensor"
  sg_divergence :: "real tensor \<Rightarrow> real tensor"
  nd_divergence_central :: "real tensor \<Rightarrow> real tensor"
  sg_gradient :: "real tensor \<Rightarrow> real tensor"
  sg_sub :: "real tensor \<Rightarrow> real tensor \<Rightarrow> real tensor"
  add_vector :: "field \<Rightarrow> real list \<Rightarrow> field"
  advect :: "real tensor \<Rightarrow> field \<Rightarrow> real \<Rightarrow> field"
  solve :: "'solver \<Rightarrow> real tensor \<Rightarrow> ('dom, 'geom) domaincache \<Rightarrow> real tensor option
              \<Rightarrow> real tensor \<times> nat"
  SparseCG :: 'solver

definition grid :: "('dom, 'grid, 'geom, 'solver) env \<Rightarrow> 'dom gridliquid \<Rightarrow> 'grid" where
  "grid env state = domain_grid env (st_domain state)"


definition copied_with_velocity :: "'dom gridliquid \<Rightarrow> field \<Rightarrow> 'dom gridliquid" where
  "copied_with_velocity state v = state\<lparr>velocity := v\<rparr>"

section \<open>Domain cache\<close>


section \<open>Pressure projection\<close>

definition solve_pressure ::
  "('dom, 'grid, 'geom, 'solver) env \<Rightarrow> 'dom obj \<Rightarrow> ('dom, 'geom) domaincache
     \<Rightarrow> 'solver option \<Rightarrow> error + (real tensor \<times> nat)" where
  "solve_pressure env input_field dc pressure_solver =
     (case (case input_field of
              StateObj st \<Rightarrow> Inr (sg_divergence env (field_tensor (velocity st)))
            | FieldObj (Staggered s) \<Rightarrow> Inr (sg_divergence env s)
            | FieldObj (Centered t) \<Rightarrow>
                (if shape t = [] then Inl IndexError
                 else if last (shape t) = cache_rank env dc
                 then Inr (nd_divergence_central env t)
                 else Inl ValueError))
      of Inl e \<Rightarrow> Inl e
       | Inr divg \<Rightarrow>
           (let pressure_solver = (case pressure_solver of None \<Rightarrow> SparseCG env | Some s \<Rightarrow> s)
            in Inr (solve env pressure_solver divg dc None)))"

function divergence_free ::
  "('dom, 'grid, 'geom, 'solver) env \<Rightarrow> 'dom obj \<Rightarrow> ('dom, 'geom) domaincache
     \<Rightarrow> 'solver option \<Rightarrow> 'dom gridliquid option
     \<Rightarrow> error + ('dom obj \<times> 'dom gridliquid option)" where
  "divergence_free env (StateObj st) dc pressure_solver state =
     (case divergence_free env (FieldObj (velocity st)) dc None None of
        Inl e \<Rightarrow> Inl e
      | Inr (FieldObj v, _) \<Rightarrow> Inr (StateObj (copied_with_velocity st v), state)
      | Inr (StateObj _, _) \<Rightarrow> Inl AssertionError)"
| "divergence_free env (FieldObj (Centered t)) dc pressure_solver state = Inl AssertionError"
| "divergence_free env (FieldObj (Staggered s)) dc pressure_solver state =
     (let velocity = s;
          ext_velocity = field_tensor (snd (extrapolate (Staggered velocity) (dc_active dc) 1 2));
          ext_velocity = with_hard_boundary_conditions env dc ext_velocity
      in case solve_pressure env (FieldObj (Staggered ext_velocity)) dc pressure_solver of
           Inl e \<Rightarrow> Inl e
         | Inr (pressure, iter) \<Rightarrow>
             (let gradp = sg_gradient env pressure;
                  velocity = with_hard_boundary_conditions env dc (sg_sub env velocity gradp);
                  state = (case state of None \<Rightarrow> None
                           | Some st \<Rightarrow> Some (st\<lparr>last_pressure := Some pressure,
                                                    last_pressure_iterations := Some iter\<rparr>))
              in Inr (FieldObj (Staggered velocity), state)))"
  by pat_completeness auto
termination
  by (relation "measure (\<lambda>(env, ob, dc, ps, st). case ob of StateObj _ \<Rightarrow> 1 | FieldObj _ \<Rightarrow> 0)") auto

section \<open>One step of the liquid\<close>

text \<open>\<open>math.add\<close> of a list of arrays (never called with an empty list).\<close>

fun add :: "real tensor list \<Rightarrow> real tensor" where
  "add [] = zeros []"
| "add (t # ts) = fold (\<lambda>x acc. tmap2 (+) acc x) ts t"

definition inflow ::
  "('dom, 'grid, 'geom, 'solver) env \<Rightarrow> 'geom inflow_src list \<Rightarrow> 'grid \<Rightarrow> real tensor" where
  "inflow env inflows g =
     (if length inflows = 0 then zeros (grid_shape env g)
      else let location = center_points env g
           in add (map (\<lambda>i. tmap (\<lambda>x. x * rate i) (value_at env (geometry i) location)) inflows))"

text \<open>Lines 42 and 43: the density with the inflow of one step added, before it is advected.\<close>

definition inflow_density ::
  "('dom, 'grid, 'geom, 'solver) env \<Rightarrow> 'dom gridliquid \<Rightarrow> real \<Rightarrow> 'geom inflow_src list
     \<Rightarrow> real tensor" where
  "inflow_density env state dt inflows = tscale dt (inflow env inflows (grid env state))"

definition density_with_inflow ::
  "('dom, 'grid, 'geom, 'solver) env \<Rightarrow> 'dom gridliquid \<Rightarrow> real \<Rightarrow> 'geom inflow_src list
     \<Rightarrow> real tensor" where
  "density_with_inflow env state dt inflows =
     tmap2 (+) (density state) (inflow_density env state dt inflows)"


section \<open>Invariant of the extrapolation\<close>

text \<open>What every pass of \<open>extrapolate\<close> preserves at an interior cell \<open>p\<close> (batch and
  spatial position) of a field \<open>t\<close> with \<open>c\<close> components on a grid of rank \<open>r\<close>: the
  distance keeps its shape, the field keeps its batch and spatial extent, and its entries at
  \<open>p\<close> are those of \<open>t\<close>.\<close>

definition interior_kept ::
  "nat list \<Rightarrow> nat \<Rightarrow> nat \<Rightarrow> real tensor \<Rightarrow> nat list \<Rightarrow> real tensor \<times> real tensor \<Rightarrow> bool" where
  "interior_kept pre c r t p st \<longleftrightarrow>
     shape (snd st) = pre @ [1]
     \<and> (\<exists>ce. shape (fst st) = pre @ [ce] \<and> (ce = c \<or> (ce = r \<and> 1 < r))
             \<and> (\<forall>k < ce. el (fst st) (p @ [k]) = el t (p @ [if c = 1 then 0 else k])))"


text \<open>A pair of field and distance on the grid of three cells by one cell with two components:
  the distance of cell \<open>j\<close> is \<open>S j\<close>, and both components of the field there are \<open>F j\<close>.\<close>

definition on_line ::
  "real tensor \<times> real tensor \<Rightarrow> (nat \<Rightarrow> real) \<Rightarrow> (nat \<Rightarrow> real) \<Rightarrow> bool" where
  "on_line st F S \<longleftrightarrow>
     shape (fst st) = [1, 3, 1, 2] \<and> shape (snd st) = [1, 3, 1, 1]
     \<and> list_all (\<lambda>j. el (snd st) [0, j, 0, 0] = S j
                      \<and> el (fst st) [0, j, 0, 0] = F j \<and> el (fst st) [0, j, 0, 1] = F j) [0, 1, 2]"


section \<open>Concrete inputs\<close>

text \<open>A small world on which the definitions are evaluated: one batch entry, three cells on one
  axis, one component; the collaborators are the simplest functions of the right type, and a
  solver is the number it reports as its iteration count.\<close>

definition env0 :: "(nat list, nat list, unit, nat) env" where
  "env0 = \<lparr>domain_grid = (\<lambda>d. d), grid_shape = (\<lambda>g. g), center_points = (\<lambda>g. zeros g),
            geometry_mask = (\<lambda>gs g. zeros g), value_at = (\<lambda>g loc. ones_like loc),
            is_valid = (\<lambda>c obs. dc_obstacles c = obs),
            cache_rank = (\<lambda>c. length (dc_domain c) - 2),
            with_hard_boundary_conditions = (\<lambda>c v. v), sg_divergence = (\<lambda>v. v),
            nd_divergence_central = (\<lambda>t. t), sg_gradient = (\<lambda>p. p),
            sg_sub = (\<lambda>a b. tmap2 (-) a b), add_vector = (\<lambda>f g. f),
            advect = (\<lambda>v f dt. f), solve = (\<lambda>s d c g. (tscale (real s) d, s)),
            SparseCG = 0\<rparr>"

definition cache0 :: "(nat list, unit) domaincache" where
  "cache0 = \<lparr>dc_domain = [1, 3, 1], dc_obstacles = [], dc_active = zeros [1, 3, 1],
              dc_accessible = tmap (\<lambda>x. 1 - x) (zeros [1, 3, 1])\<rparr>"

definition state0 :: "nat list gridliquid" where
  "state0 = \<lparr>st_domain = [1, 3, 1], density = zeros [1, 3, 1],
              velocity = Staggered (zeros [1, 4, 1]), gravity = [- 1], age = 0,
              domaincache = None, last_pressure = None, last_pressure_iterations = None\<rparr>"

definition state1 :: "nat list gridliquid" where
  "state1 = state0\<lparr>domaincache := Some 0\<rparr>"

text \<open>The occupancy pattern occupied, empty, occupied along one axis.\<close>

definition mask101 :: "real tensor" where
  "mask101 = \<lparr>shape = [1, 3, 1], el = (\<lambda>idx. if idx ! 1 = 1 then 0 else 1)\<rparr>"

text \<open>The field with the entries 0, 1, 2 along its one axis.\<close>

definition ramp3 :: "real tensor" where
  "ramp3 = \<lparr>shape = [1, 3, 1], el = (\<lambda>idx. real (idx ! 1))\<rparr>"

text \<open>Three cells by one cell, two components: the field has the entries 0, 1, 2 along its
  first axis, and only the last cell holds liquid.\<close>

definition fld3 :: "real tensor" where
  "fld3 = \<lparr>shape = [1, 3, 1, 2], el = (\<lambda>idx. real (idx ! 1))\<rparr>"

definition mask3 :: "real tensor" where
  "mask3 = \<lparr>shape = [1, 3, 1, 1], el = (\<lambda>idx. if idx ! 1 = 2 then 1 else 0)\<rparr>"

section \<open>Basic facts about arrays\<close>

lemma valid_length: "valid s idx \<Longrightarrow> length idx = length s"
  by (simp add: valid_def list_all2_lengthD)

lemma bidx_valid: "valid s idx \<Longrightarrow> bidx s idx = idx"
  unfolding valid_def bidx_def
  by (induction idx s rule: list_all2_induct) auto

lemma bshape_same [simp]: "bshape s s = s"
  unfolding bshape_def by (induction s) (auto simp: bdim_def)


lemma shape_tmap [simp]: "shape (tmap f t) = shape t"
  by (simp add: tmap_def)

lemma el_tmap [simp]: "el (tmap f t) idx = f (el t idx)"
  by (simp add: tmap_def)

lemma shape_tmap2 [simp]: "shape (tmap2 f a b) = bshape (shape a) (shape b)"
  by (simp add: tmap2_def)

lemma el_tmap2 [simp]: "el (tmap2 f a b) idx = f (rd a idx) (rd b idx)"
  by (simp add: tmap2_def)









section \<open>Binary mask\<close>





section \<open>Surface mask\<close>

lemma nth_frame:
  "i < r + 2 \<Longrightarrow> ([x] @ map f [0..<r] @ [y]) ! i
     = (if i = 0 then x else if i < r + 1 then f (i - 1) else y)"
  by (cases i) (auto simp: nth_append)

lemma nth_frame_Cons:
  "i < Suc (Suc r) \<Longrightarrow> (x # map f [0..<r] @ [y]) ! i
     = (if i = 0 then x else if i < Suc r then f (i - 1) else y)"
  using nth_frame [of i r x f y] by simp

lemma length_frame [simp]: "length ([x] @ map f [0..<r] @ [y]) = r + 2"
  by simp

lemma replicate_as_map: "replicate r z = map (\<lambda>i. z) [0..<r]"
  by (simp add: map_replicate_trivial)

lemma shape_pad: "shape (pad t pw mode) = map2 (\<lambda>n (b, a). b + n + a) (shape t) pw"
  by (simp add: pad_def)

lemma el_pad_symmetric:
  "el (pad t pw Symmetric) j = el t (map2 (\<lambda>(n, (b, a)) j. sym_src n b j) (zip (shape t) pw) j)"
  by (simp add: pad_def)

lemma shape_getitem_pad:
  assumes "length pw = length (shape t)" "length sl = length (shape t)"
  shows "shape (getitem (pad t pw mode) sl)
     = map (\<lambda>i. slice_len (fst (pw ! i) + shape t ! i + snd (pw ! i)) (sl ! i)) [0..<length (shape t)]"
  using assms
  by (auto simp: getitem_def shape_pad intro!: nth_equalityI split: prod.splits)

lemma el_getitem_pad:
  assumes "length pw = length (shape t)" "length sl = length (shape t)"
    "length idx = length (shape t)"
  shows "el (getitem (pad t pw Symmetric) sl) idx
     = el t (map (\<lambda>i. sym_src (shape t ! i) (fst (pw ! i))
                        (slice_start (fst (pw ! i) + shape t ! i + snd (pw ! i)) (sl ! i) + idx ! i))
               [0..<length (shape t)])"
proof -
  have "map2 (\<lambda>(n, (b, a)) j. sym_src n b j) (zip (shape t) pw)
          (map2 (+) (map2 slice_start (shape (pad t pw Symmetric)) sl) idx)
        = map (\<lambda>i. sym_src (shape t ! i) (fst (pw ! i))
                        (slice_start (fst (pw ! i) + shape t ! i + snd (pw ! i)) (sl ! i) + idx ! i))
               [0..<length (shape t)]"
    using assms
    by (auto simp: shape_pad intro!: nth_equalityI split: prod.splits)
  then show ?thesis by (simp add: getitem_def el_pad_symmetric)
qed


lemma valid_nth: "valid s idx \<longleftrightarrow> length idx = length s \<and> (\<forall>i < length s. idx ! i < s ! i)"
  by (auto simp: valid_def list_all2_conv_all_nth)

lemma slice_vals [simp]:
  "slice_start n full = 0" "slice_len n full = n"
  "slice_start (Suc (Suc n)) (Slice (Some 1) (Some (- 1))) = 1"
  "slice_len (Suc (Suc n)) (Slice (Some 1) (Some (- 1))) = n"
  "slice_start (Suc (Suc n)) (Slice (Some 2) None) = 2"
  "slice_len (Suc (Suc n)) (Slice (Some 2) None) = n"
  "slice_start (Suc (Suc n)) (Slice (Some 0) (Some (- 2))) = 0"
  "slice_len (Suc (Suc n)) (Slice (Some 0) (Some (- 2))) = n"
  by (simp_all add: full_def slice_len_def slice_bound_def)

lemma slice_bound_vals [simp]:
  "slice_bound n 0 = 0"
  "slice_bound (Suc (Suc n)) 1 = 1"
  "slice_bound (Suc (Suc n)) 2 = 2"
  "slice_bound (Suc (Suc n)) (- 1) = Suc n"
  "slice_bound (Suc (Suc n)) (- 2) = n"
  by (simp_all add: slice_bound_def)

lemma sym_src_vals:
  "j < n \<Longrightarrow> sym_src n 0 j = j"
  "j < n \<Longrightarrow> sym_src n (Suc 0) (Suc j) = j"
  "j < n \<Longrightarrow> sym_src n (Suc 0) (Suc (Suc j)) = min (j + 1) (n - 1)"
  "j < n \<Longrightarrow> sym_src n (Suc 0) j = j - 1"
  by (auto simp: sym_src_def)

lemma surface_slices:
  assumes len: "2 \<le> length (shape m)" and v: "valid (shape m) idx"
    and d: "d < length (shape m) - 2"
  defines "r \<equiv> length (shape m) - 2"
  defines "mp \<equiv> pad m ([(0, 0)] @ replicate r (1, 1) @ [(0, 0)]) Symmetric"
  shows "el (getitem mp ([full] @ map (\<lambda>i. Slice (Some 1) (Some (- 1))) [0..<r] @ [full])) idx
           = el m idx"
    and "el (getitem mp ([full] @ map (\<lambda>i. if i = d then Slice (Some 2) None
                                   else Slice (Some 1) (Some (- 1))) [0..<r] @ [full])) idx
           = el m (idx[Suc d := min (idx ! Suc d + 1) (shape m ! Suc d - 1)])"
    and "el (getitem mp ([full] @ map (\<lambda>i. if i = d then Slice (Some 0) (Some (- 2))
                                   else Slice (Some 1) (Some (- 1))) [0..<r] @ [full])) idx
           = el m (idx[Suc d := idx ! Suc d - 1])"
proof -
  let ?pw = "[(0, 0)] @ map (\<lambda>i. (1 :: nat, 1 :: nat)) [0..<r] @ [(0, 0)]"
  have l: "length (shape m) = r + 2" "length idx = r + 2" using len v by (auto simp: r_def valid_nth)
  have lt: "\<And>i. i < r + 2 \<Longrightarrow> idx ! i < shape m ! i" using v l by (auto simp: valid_nth)
  have mp: "mp = pad m ?pw Symmetric" by (simp add: mp_def replicate_as_map)
  have dr: "d < r" using d by (simp add: r_def)
  have e: "el (getitem mp ([full] @ map f [0..<r] @ [full])) idx
     = el m (map (\<lambda>i. sym_src (shape m ! i) (fst (?pw ! i))
                        (slice_start (fst (?pw ! i) + shape m ! i + snd (?pw ! i))
                           (([full] @ map f [0..<r] @ [full]) ! i) + idx ! i))
               [0..<r + 2])" for f
    unfolding mp using el_getitem_pad [of ?pw m "[full] @ map f [0..<r] @ [full]" idx] l
    by simp
  have n: "map g [0..<r + 2] = ys \<longleftrightarrow> length ys = r + 2 \<and> (\<forall>i < r + 2. g i = ys ! i)" for g ys
    by (auto simp del: upt_Suc intro!: nth_equalityI)
  show "el (getitem mp ([full] @ map (\<lambda>i. Slice (Some 1) (Some (- 1))) [0..<r] @ [full])) idx
           = el m idx"
    unfolding e
    apply (rule arg_cong [where f = "el m"])
    unfolding n
    apply (auto simp add: l nth_frame_Cons sym_src_vals lt simp del: upt_Suc)
    done
  show "el (getitem mp ([full] @ map (\<lambda>i. if i = d then Slice (Some 2) None
                                   else Slice (Some 1) (Some (- 1))) [0..<r] @ [full])) idx
           = el m (idx[Suc d := min (idx ! Suc d + 1) (shape m ! Suc d - 1)])"
    unfolding e
    apply (rule arg_cong [where f = "el m"])
    unfolding n
    apply (auto simp add: l dr nth_frame_Cons sym_src_vals lt nth_list_update simp del: upt_Suc)
    done
  show "el (getitem mp ([full] @ map (\<lambda>i. if i = d then Slice (Some 0) (Some (- 2))
                                   else Slice (Some 1) (Some (- 1))) [0..<r] @ [full])) idx
           = el m (idx[Suc d := idx ! Suc d - 1])"
    unfolding e
    apply (rule arg_cong [where f = "el m"])
    unfolding n
    apply (auto simp add: l dr nth_frame_Cons sym_src_vals lt nth_list_update simp del: upt_Suc)
    done
qed


lemma surface_slice_shape:
  assumes len: "2 \<le> length (shape m)"
    and f: "\<And>i n. slice_len (Suc (Suc n)) (f i) = n"
  defines "r \<equiv> length (shape m) - 2"
  shows "shape (getitem (pad m ([(0, 0)] @ replicate r (1, 1) @ [(0, 0)]) Symmetric)
                  ([full] @ map f [0..<r] @ [full])) = shape m"
proof -
  let ?pw = "[(0, 0)] @ map (\<lambda>i. (1 :: nat, 1 :: nat)) [0..<r] @ [(0, 0)]"
  have l: "length (shape m) = r + 2" using len by (auto simp: r_def)
  have n: "map g [0..<r + 2] = ys \<longleftrightarrow> length ys = r + 2 \<and> (\<forall>i < r + 2. g i = ys ! i)" for g ys
    by (auto simp del: upt_Suc intro!: nth_equalityI)
  have "shape (getitem (pad m ?pw Symmetric) ([full] @ map f [0..<r] @ [full]))
     = map (\<lambda>i. slice_len (fst (?pw ! i) + shape m ! i + snd (?pw ! i))
                   (([full] @ map f [0..<r] @ [full]) ! i)) [0..<r + 2]"
    using shape_getitem_pad [of ?pw m "[full] @ map f [0..<r] @ [full]" Symmetric] l by simp
  also have "\<dots> = shape m"
    unfolding n by (auto simp add: l nth_frame_Cons f simp del: upt_Suc)
  finally show ?thesis by (simp add: replicate_as_map)
qed

lemma surface_axis_el:
  assumes len: "2 \<le> length (shape m)" and v: "valid (shape m) idx"
    and d: "d < length (shape m) - 2" and b: "shape bcs = shape m"
  defines "r \<equiv> length (shape m) - 2"
  defines "mp \<equiv> pad m ([(0, 0)] @ replicate r (1, 1) @ [(0, 0)]) Symmetric"
  shows "shape (surface_axis mp [0..<r] d bcs) = shape m"
    and "el (surface_axis mp [0..<r] d bcs) idx =
          (let c = el m idx;
               u = el m (idx[Suc d := min (idx ! Suc d + 1) (shape m ! Suc d - 1)]);
               l = el m (idx[Suc d := idx ! Suc d - 1])
           in max (max (el bcs idx) (max u c - u)) (max c l - l))"
proof -
  define U where "U = getitem mp ([full] @ map (\<lambda>i. if i = d then Slice (Some 2) None
                                   else Slice (Some 1) (Some (- 1))) [0..<r] @ [full])"
  define C where "C = getitem mp ([full] @ map (\<lambda>i. Slice (Some 1) (Some (- 1))) [0..<r] @ [full])"
  define L where "L = getitem mp ([full] @ map (\<lambda>i. if i = d then Slice (Some 0) (Some (- 2))
                                   else Slice (Some 1) (Some (- 1))) [0..<r] @ [full])"
  have sh: "shape U = shape m" "shape C = shape m" "shape L = shape m"
    unfolding U_def C_def L_def mp_def r_def by (rule surface_slice_shape [OF len]; simp)+
  note e = surface_slices [OF len v d, folded r_def, folded mp_def, folded U_def C_def L_def]
  have a: "surface_axis mp [0..<r] d bcs =
             tmap2 max (tmap2 max bcs (tmap2 (-) (tmap2 max U C) U))
               (tmap2 (-) (tmap2 max C L) L)"
    by (simp add: surface_axis_def Let_def U_def C_def L_def)
  show "shape (surface_axis mp [0..<r] d bcs) = shape m"
    unfolding a by (simp add: sh b)
  show "el (surface_axis mp [0..<r] d bcs) idx =
          (let c = el m idx;
               u = el m (idx[Suc d := min (idx ! Suc d + 1) (shape m ! Suc d - 1)]);
               l = el m (idx[Suc d := idx ! Suc d - 1])
           in max (max (el bcs idx) (max u c - u)) (max c l - l))"
    unfolding a using v
    by (simp add: rd_def sh b bidx_valid e Let_def)
qed


lemma valid_update:
  "valid s idx \<Longrightarrow> k < length s \<Longrightarrow> j < s ! k \<Longrightarrow> valid s (idx[k := j])"
  by (auto simp: valid_nth nth_list_update)

lemma surface_fold:
  assumes len: "2 \<le> length (shape m)" and v: "valid (shape m) idx"
    and bin: "\<forall>i. valid (shape m) i \<longrightarrow> el m i = 0 \<or> el m i = (1 :: real)"
  defines "r \<equiv> length (shape m) - 2"
  defines "mp \<equiv> pad m ([(0, 0)] @ replicate r (1, 1) @ [(0, 0)]) Symmetric"
  assumes ds: "set ds \<subseteq> {0..<r}" and b: "shape bcs = shape m"
    and b01: "el bcs idx = 0 \<or> el bcs idx = 1"
  shows "shape (fold (surface_axis mp [0..<r]) ds bcs) = shape m
    \<and> el (fold (surface_axis mp [0..<r]) ds bcs) idx =
        (if el bcs idx = 1
            \<or> (el m idx = 1
                \<and> (\<exists>d \<in> set ds.
                      el m (idx[Suc d := min (idx ! Suc d + 1) (shape m ! Suc d - 1)]) = 0
                    \<or> el m (idx[Suc d := idx ! Suc d - 1]) = 0))
         then 1 else 0)"
  using ds b b01
proof (induction ds arbitrary: bcs)
  case Nil
  then show ?case by auto
next
  case (Cons d ds)
  have d: "d < length (shape m) - 2" using Cons.prems(1) by (simp add: r_def)
  let ?b = "surface_axis mp [0..<r] d bcs"
  let ?u = "idx[Suc d := min (idx ! Suc d + 1) (shape m ! Suc d - 1)]"
  let ?l = "idx[Suc d := idx ! Suc d - 1]"
  have k: "Suc d < length (shape m)" "idx ! Suc d < shape m ! Suc d"
    using d v by (auto simp: valid_nth)
  have vu: "valid (shape m) ?u" "valid (shape m) ?l"
    using k by (auto intro!: valid_update [OF v])
  have c01: "el m idx = 0 \<or> el m idx = 1" "el m ?u = 0 \<or> el m ?u = 1"
    "el m ?l = 0 \<or> el m ?l = 1"
    using bin v vu by blast+
  note sa = surface_axis_el [OF len v d Cons.prems(2), folded r_def, folded mp_def]
  have e: "el ?b idx = (if el bcs idx = 1 \<or> (el m idx = 1 \<and> (el m ?u = 0 \<or> el m ?l = 0))
                       then 1 else 0)"
    unfolding sa(2) Let_def using c01 Cons.prems(3) by auto
  have b01': "el ?b idx = 0 \<or> el ?b idx = 1" unfolding e by simp
  have "set ds \<subseteq> {0..<r}" using Cons.prems(1) by simp
  from Cons.IH [OF this sa(1) b01'] show ?case
    unfolding fold_simps e by auto
qed

text \<open>
  C3 (amended).  For every binary occupancy mask \<open>create_surface_mask\<close> marks (with 1, all
  other entries being 0) exactly the occupied cells that have an empty axis-neighbour inside
  the grid, the inner contour; empty cells are never marked, and the border of the grid does
  not count as empty.  In a checkerboard pattern every occupied cell adjacent to an empty cell
  is thus marked.
\<close>

theorem create_surface_mask_inner_contour:
  assumes len: "2 \<le> length (shape m)"
    and bin: "\<forall>i. valid (shape m) i \<longrightarrow> el m i = 0 \<or> el m i = 1"
    and v: "valid (shape m) idx"
  shows "shape (create_surface_mask m) = shape m
    \<and> el (create_surface_mask m) idx =
        (if el m idx = 1
            \<and> (\<exists>d < length (shape m) - 2.
                  (idx ! Suc d + 1 < shape m ! Suc d \<and> el m (idx[Suc d := idx ! Suc d + 1]) = 0)
                \<or> (0 < idx ! Suc d \<and> el m (idx[Suc d := idx ! Suc d - 1]) = 0))
         then 1 else 0)"
proof -
  define r where "r = length (shape m) - 2"
  define mp where "mp = pad m ([(0, 0)] @ replicate r (1, 1) @ [(0, 0)]) Symmetric"
  have l: "length (shape m) = r + 2" using len by (simp add: r_def)
  have lp: "length (shape mp) = r + 2"
    by (simp add: mp_def shape_pad l)
  have c: "create_surface_mask m = fold (surface_axis mp [0..<r]) [0..<r] (zeros_like m)"
    unfolding create_surface_mask_def Let_def spatial_rank_def r_def [symmetric]
      mp_def [symmetric] lp
    by simp
  have z: "shape (zeros_like m) = shape m" "el (zeros_like m) idx = 0"
    by (simp_all add: zeros_like_def zeros_def)
  have sub: "set [0..<r] \<subseteq> {0..<r}" by simp
  have z01: "el (zeros_like m) idx = 0 \<or> el (zeros_like m) idx = 1" using z(2) by simp
  note f = surface_fold [OF len v bin, folded r_def, folded mp_def, OF sub z(1) z01]
  have nb: "(el m (idx[Suc d := min (idx ! Suc d + 1) (shape m ! Suc d - 1)]) = 0
              \<or> el m (idx[Suc d := idx ! Suc d - 1]) = 0)
        \<longleftrightarrow> ((idx ! Suc d + 1 < shape m ! Suc d \<and> el m (idx[Suc d := idx ! Suc d + 1]) = 0)
                \<or> (0 < idx ! Suc d \<and> el m (idx[Suc d := idx ! Suc d - 1]) = 0))"
    if "el m idx = 1" "d < r" for d
  proof -
    have k: "idx ! Suc d < shape m ! Suc d" using that(2) v l by (auto simp: valid_nth)
    have u: "idx[Suc d := min (idx ! Suc d + 1) (shape m ! Suc d - 1)]
               = (if idx ! Suc d + 1 < shape m ! Suc d then idx[Suc d := idx ! Suc d + 1] else idx)"
    proof (cases "idx ! Suc d + 1 < shape m ! Suc d")
      case True
      then have "min (idx ! Suc d + 1) (shape m ! Suc d - 1) = idx ! Suc d + 1" by linarith
      then show ?thesis using True by (simp only: if_True)
    next
      case False
      then have "min (idx ! Suc d + 1) (shape m ! Suc d - 1) = idx ! Suc d" using k by linarith
      then show ?thesis using False by (simp only: if_False list_update_id)
    qed
    have lo: "idx[Suc d := idx ! Suc d - 1]
               = (if 0 < idx ! Suc d then idx[Suc d := idx ! Suc d - 1] else idx)"
      using list_update_id [of idx "Suc d"] by (cases "idx ! Suc d") auto
    show ?thesis
      apply (subst u)
      apply (subst lo)
      using that(1) by auto
  qed
  have ex: "(\<exists>d \<in> set [0..<r].
                 el m (idx[Suc d := min (idx ! Suc d + 1) (shape m ! Suc d - 1)]) = 0
               \<or> el m (idx[Suc d := idx ! Suc d - 1]) = 0)
        \<longleftrightarrow> (\<exists>d < r.
                  (idx ! Suc d + 1 < shape m ! Suc d \<and> el m (idx[Suc d := idx ! Suc d + 1]) = 0)
                \<or> (0 < idx ! Suc d \<and> el m (idx[Suc d := idx ! Suc d - 1]) = 0))"
    if "el m idx = 1"
    using nb [OF that] by (simp add: Bex_def)
  have sh: "shape (create_surface_mask m) = shape m" unfolding c using f by blast
  have "el (create_surface_mask m) idx =
          (if el m idx = 1
              \<and> (\<exists>d \<in> set [0..<r].
                    el m (idx[Suc d := min (idx ! Suc d + 1) (shape m ! Suc d - 1)]) = 0
                  \<or> el m (idx[Suc d := idx ! Suc d - 1]) = 0)
           then 1 else 0)"
    unfolding c using f z(2) by simp
  then show ?thesis
    using sh ex unfolding r_def [symmetric] by (cases "el m idx = 1") simp_all
qed



lemma create_surface_mask_fold:
  assumes "2 \<le> length (shape m)"
  shows "create_surface_mask m =
           fold (surface_axis (pad m ([(0, 0)] @ replicate (length (shape m) - 2) (1, 1) @ [(0, 0)])
                                 Symmetric) [0..<length (shape m) - 2])
             [0..<length (shape m) - 2] (zeros_like m)"
proof -
  have "length (shape (pad m ([(0, 0)] @ replicate (length (shape m) - 2) (1, 1) @ [(0, 0)])
                         Symmetric)) - 2 = length (shape m) - 2"
    using assms by (simp add: shape_pad)
  then show ?thesis
    unfolding create_surface_mask_def Let_def spatial_rank_def by simp
qed

lemma mask101_facts:
  "shape mask101 = [1, 3, 1]" "el mask101 [0, 0, 0] = 1" "el mask101 [0, 1, 0] = 0"
  "el mask101 [0, 2, 0] = 1" "2 \<le> length (shape mask101)"
  "valid (shape mask101) [0, 0, 0]" "valid (shape mask101) [0, 1, 0]"
  by (simp_all add: mask101_def valid_def)

lemma el_mask101: "el mask101 [a, b, c] = (if b = 1 then 0 else 1)"
  by (simp add: mask101_def)

text \<open>
  C3 (as stated, refuted).  In the occupancy pattern occupied, empty, occupied the occupied
  cell 0 is marked, but the empty cell 1, whose two axis-neighbours are occupied, is not.
\<close>

theorem surface_mask_skips_empty_cells:
  "el mask101 [0, 0, 0] = 1 \<and> el mask101 [0, 1, 0] = 0
   \<and> el (create_surface_mask mask101) [0, 0, 0] = 1
   \<and> el (create_surface_mask mask101) [0, 1, 0] = 0"
proof -
  have z: "shape (zeros_like mask101) = shape mask101" "\<And>i. el (zeros_like mask101) i = 0"
    by (simp_all add: zeros_like_def zeros_def)
  have d: "0 < length (shape mask101) - 2" by (simp add: mask101_facts)
  have c: "create_surface_mask mask101 =
             surface_axis (pad mask101 ([(0, 0)] @ replicate (length (shape mask101) - 2) (1, 1)
                                          @ [(0, 0)]) Symmetric)
               [0..<length (shape mask101) - 2] 0 (zeros_like mask101)"
    unfolding create_surface_mask_fold [OF mask101_facts(5)]
    by (simp add: mask101_facts(1))
  have "el (create_surface_mask mask101) [0, 0, 0] = 1"
    unfolding c surface_axis_el(2) [OF mask101_facts(5) mask101_facts(6) d z(1)]
    by (simp add: z mask101_facts(1) el_mask101 Let_def)
  moreover have "el (create_surface_mask mask101) [0, 1, 0] = 0"
    unfolding c surface_axis_el(2) [OF mask101_facts(5) mask101_facts(7) d z(1)]
    by (simp add: z mask101_facts(1) el_mask101 Let_def)
  ultimately show ?thesis by (simp add: el_mask101)
qed

theorem create_surface_mask_inner_contour_witness:
  "2 \<le> length (shape mask101) \<and> valid (shape mask101) [0, 0, 0]
   \<and> shape (create_surface_mask mask101) = [1, 3, 1]
   \<and> el (create_surface_mask mask101) [0, 0, 0] = 1"
proof -
  have b: "\<forall>i. valid (shape mask101) i \<longrightarrow> el mask101 i = 0 \<or> el mask101 i = 1"
    by (simp add: mask101_def)
  have e: "\<exists>d < length (shape mask101) - 2.
          ([0, 0, 0 :: nat] ! Suc d + 1 < shape mask101 ! Suc d
             \<and> el mask101 ([0, 0, 0][Suc d := [0, 0, 0] ! Suc d + 1]) = 0)
        \<or> (0 < [0, 0, 0 :: nat] ! Suc d
             \<and> el mask101 ([0, 0, 0][Suc d := [0, 0, 0] ! Suc d - 1]) = 0)"
    by (intro exI [of _ 0]) (simp add: mask101_facts(1) el_mask101)
  note t = create_surface_mask_inner_contour [OF mask101_facts(5) b mask101_facts(6)]
  have "shape (create_surface_mask mask101) = shape mask101" using t by blast
  moreover have "el (create_surface_mask mask101) [0, 0, 0] = 1"
    using t e mask101_facts(2) by (simp only: if_True simp_thms)
  ultimately show ?thesis using mask101_facts by simp
qed

section \<open>Extrapolation leaves the interior alone\<close>

lemma bidx_append:
  "length p = length pre \<Longrightarrow> bidx (pre @ [n]) (p @ [k]) = bidx pre p @ [if n = 1 then 0 else k]"
  by (simp add: bidx_def)

lemma bshape_append:
  "length s1 = length s2 \<Longrightarrow> bshape (s1 @ [a]) (s2 @ [b]) = bshape s1 s2 @ [bdim a b]"
  by (simp add: bshape_def)

lemma shape_getitem: "shape (getitem t sl) = map2 slice_len (shape t) sl"
  by (simp add: getitem_def)

lemma nth_frame_gen:
  "i < length xs + 2 \<Longrightarrow> ([x] @ map f xs @ [y]) ! i
     = (if i = 0 then x else if i < length xs + 1 then f (xs ! (i - 1)) else y)"
  by (cases i) (auto simp: nth_append)

lemma framed_shape:
  assumes l: "length (shape t) = length dims + 2"
    and g: "\<And>x n. slice_len (fst (g x) + n + snd (g x)) (h x) = n"
  shows "shape (getitem (pad t ([(0, 0)] @ map g dims @ [(0, 0)]) mode)
                  ([full] @ map h dims @ [full])) = shape t"
proof -
  let ?pw = "[(0, 0)] @ map g dims @ [(0, 0)]"
  let ?sl = "[full] @ map h dims @ [full]"
  have "shape (getitem (pad t ?pw mode) ?sl)
     = map (\<lambda>i. slice_len (fst (?pw ! i) + shape t ! i + snd (?pw ! i)) (?sl ! i))
         [0..<length (shape t)]"
    by (rule shape_getitem_pad) (simp_all add: l)
  also have "\<dots> = shape t"
  proof (rule nth_equalityI)
    show "length (map (\<lambda>i. slice_len (fst (?pw ! i) + shape t ! i + snd (?pw ! i)) (?sl ! i))
                  [0..<length (shape t)]) = length (shape t)" by simp
  next
    fix i
    assume "i < length (map (\<lambda>i. slice_len (fst (?pw ! i) + shape t ! i + snd (?pw ! i)) (?sl ! i))
                  [0..<length (shape t)])"
    then have i: "i < length dims + 2" using l by simp
    have "slice_len (fst (?pw ! i) + shape t ! i + snd (?pw ! i)) (?sl ! i) = shape t ! i"
      unfolding nth_frame_gen [OF i] using g by (simp add: slice_vals)
    then show "map (\<lambda>i. slice_len (fst (?pw ! i) + shape t ! i + snd (?pw ! i)) (?sl ! i))
                  [0..<length (shape t)] ! i = shape t ! i"
      using i l by (simp del: upt_Suc)
  qed
  finally show ?thesis .
qed

lemma shape_shifted:
  assumes "length (shape t) = length dims + 2"
  shows "shape (shifted t dims d) = shape t"
  unfolding shifted_def Let_def
  by (rule framed_shape [OF assms]) (auto simp: slice_len_def slice_bound_def)

lemma concat_at_False:
  "\<forall>u \<in> set us. \<not> el u (p @ [0]) \<and> last (shape u) = 1 \<Longrightarrow> \<not> concat_at us p k"
  by (induction us arbitrary: k) auto

lemma shape_where3 [simp]:
  "shape (where3 c a b) = bshape (bshape (shape c) (shape a)) (shape b)"
  by (simp add: where3_def)

lemma el_where3 [simp]:
  "el (where3 c a b) idx = (if rd c idx then rd a idx else rd b idx)"
  by (simp add: where3_def)

lemma shape_concat_last:
  "shape (concat_last us) = butlast (shape (hd us)) @ [sum_list (map (\<lambda>t. last (shape t)) us)]"
  by (simp add: concat_last_def)

lemma el_concat_last: "el (concat_last us) (p @ [k]) = concat_at us p k"
  by (simp add: concat_last_def)


lemma bidx_idem: "valid s p \<Longrightarrow> bidx s p = p"
  by (rule bidx_valid)

lemma length_bidx: "length (bidx s p) = min (length s) (length p)"
  by (simp add: bidx_def)

lemma shape_improves:
  "shape (improves dd sd signs) = bshape (bshape (shape dd) (shape sd)) (shape signs)"
  by (simp add: improves_def tabs_def)

lemma improves_interior:
  assumes "shape signs = pre @ [1]" "valid pre p" "el signs (p @ [0]) < 0"
  shows "\<not> el (improves dd sd signs) (p @ [0])"
proof -
  have "bidx (pre @ [1]) (p @ [0]) = p @ [0]"
    using assms(2) by (simp add: bidx_append valid_length bidx_valid)
  then show ?thesis using assms by (simp add: improves_def rd_def)
qed

lemma where3_interior:
  assumes e: "shape e = pre @ [ce]" and df: "shape df = pre @ [ce]"
    and c: "shape cond = pre @ [n]" and p: "valid pre p"
    and f: "\<And>k. \<not> el cond (p @ [k])"
  shows "el (where3 cond df e) (p @ [k]) = el e (p @ [if ce = 1 then 0 else k])"
    and "shape (where3 cond df e) = pre @ [bdim (bdim n ce) ce]"
proof -
  have l: "length p = length pre" using p by (rule valid_length)
  have "rd cond (p @ [k]) = False"
    using f by (simp add: rd_def c bidx_append [OF l] bidx_valid [OF p])
  then show "el (where3 cond df e) (p @ [k]) = el e (p @ [if ce = 1 then 0 else k])"
    by (simp add: rd_def e bidx_append [OF l] bidx_valid [OF p])
  show "shape (where3 cond df e) = pre @ [bdim (bdim n ce) ce]"
    by (simp add: e df c bshape_append)
qed

lemma shape_shifted_dist:
  assumes "shape s = S" "shape signs = S" "length S = length dims + 2"
  shows "shape (shifted_dist dx signs s dims d) = S"
  using assms by (simp add: shifted_dist_def shape_shifted tscale_def)

lemma relax_step_interior:
  assumes e: "shape e = pre @ [ce]" and s: "shape s = pre @ [1]"
    and sg: "shape signs = pre @ [1]" and l: "length pre = length dims + 1"
    and p: "valid pre p" and neg: "el signs (p @ [0]) < 0" and ld: "length d = length dims"
  shows "shape (snd (relax_step dx signs dims d (e, s))) = pre @ [1]"
    and "fst (relax_step dx signs dims d (e, s)) = e
         \<or> (dims \<noteq> []
            \<and> shape (fst (relax_step dx signs dims d (e, s)))
               = pre @ [bdim (bdim (length dims) ce) ce]
            \<and> (\<forall>k. el (fst (relax_step dx signs dims d (e, s))) (p @ [k])
                     = el e (p @ [if ce = 1 then 0 else k])))"
proof -
  define dd where "dd = shifted_dist dx signs s dims d"
  define u where "u = improves dd s signs"
  define cond where "cond = concat_last (replicate (spatial_rank e) u)"
  have shdd: "shape dd = pre @ [1]"
    unfolding dd_def by (rule shape_shifted_dist [OF s sg]) (simp add: l)
  have shu: "shape u = pre @ [1]" by (simp add: u_def shape_improves shdd s sg)
  have sr: "spatial_rank e = length dims" by (simp add: spatial_rank_def e l)
  have r: "relax_step dx signs dims d (e, s) =
             (if list_all (\<lambda>x. x = 0) d then (e, s)
              else (where3 cond (shifted e dims d) e, where3 u dd s))"
    by (simp add: relax_step_def Let_def dd_def u_def cond_def)
  show "shape (snd (relax_step dx signs dims d (e, s))) = pre @ [1]"
    by (simp add: r s shu shdd)
  show "fst (relax_step dx signs dims d (e, s)) = e
         \<or> (dims \<noteq> []
            \<and> shape (fst (relax_step dx signs dims d (e, s)))
               = pre @ [bdim (bdim (length dims) ce) ce]
            \<and> (\<forall>k. el (fst (relax_step dx signs dims d (e, s))) (p @ [k])
                     = el e (p @ [if ce = 1 then 0 else k])))"
  proof (cases "list_all (\<lambda>x. x = 0) d")
    case True
    then show ?thesis by (simp add: r)
  next
    case False
    have nu: "\<not> el u (p @ [0])" unfolding u_def by (rule improves_interior [OF sg p neg])
    have f: "\<not> el cond (p @ [k])" for k
      unfolding cond_def el_concat_last
      by (rule concat_at_False) (simp add: nu shu)
    have shc: "shape cond = pre @ [length dims]"
    proof (cases "length dims")
      case 0
      then show ?thesis using False ld by simp
    next
      case (Suc n)
      then show ?thesis
        by (simp add: cond_def shape_concat_last sr shu sum_list_replicate)
    qed
    have shdf: "shape (shifted e dims d) = pre @ [ce]"
      using shape_shifted [of e dims d] by (simp add: e l)
    note w = where3_interior [OF e shdf shc p f]
    have "d \<noteq> []" using False by auto
    then have ne: "dims \<noteq> []" using ld by auto
    show ?thesis using False w ne by (simp add: r)
  qed
qed

lemma prime_step_unfold:
  "prime_step dx signs dims d (e, s) =
     (if \<not> list_all (\<lambda>x. x \<le> 0) d \<and> dot d d = 1 \<and> list_all (\<lambda>x. x \<ge> 0) d
      then (where3 (concat_last (map (\<lambda>i. if d ! i = 1
                       then tmap (\<lambda>z. z \<noteq> 0)
                              (zeros_like (improves (shifted_dist dx signs s dims d) s signs))
                       else improves (shifted_dist dx signs s dims d) s signs) dims))
              (shifted e dims d) e,
            where3 (improves (shifted_dist dx signs s dims d) s signs)
              (shifted_dist dx signs s dims d) s)
      else (e, s))"
  unfolding prime_step_def Let_def prod.case
  by (cases "list_all (\<lambda>x. x \<le> 0) d"; cases "dot d d = 1"; cases "list_all (\<lambda>x. x \<ge> 0) d")
    (simp_all only: if_True if_False simp_thms)

lemma sum_list_ones: "\<forall>x \<in> set xs. f x = (1 :: nat) \<Longrightarrow> sum_list (map f xs) = length xs"
  by (induction xs) auto

lemma prime_step_interior:
  assumes e: "shape e = pre @ [ce]" and s: "shape s = pre @ [1]"
    and sg: "shape signs = pre @ [1]" and l: "length pre = length dims + 1"
    and p: "valid pre p" and neg: "el signs (p @ [0]) < 0" and ld: "length d = length dims"
  shows "shape (snd (prime_step dx signs dims d (e, s))) = pre @ [1]"
    and "fst (prime_step dx signs dims d (e, s)) = e
         \<or> (dims \<noteq> []
            \<and> shape (fst (prime_step dx signs dims d (e, s)))
               = pre @ [bdim (bdim (length dims) ce) ce]
            \<and> (\<forall>k. el (fst (prime_step dx signs dims d (e, s))) (p @ [k])
                     = el e (p @ [if ce = 1 then 0 else k])))"
proof -
  define dd where "dd = shifted_dist dx signs s dims d"
  define u where "u = improves dd s signs"
  define fz where "fz = tmap (\<lambda>z. z \<noteq> 0) (zeros_like u)"
  define us where "us = map (\<lambda>i. if d ! i = 1 then fz else u) dims"
  define cond where "cond = concat_last us"
  define go where "go \<longleftrightarrow> \<not> list_all (\<lambda>x. x \<le> 0) d \<and> dot d d = 1 \<and> list_all (\<lambda>x. x \<ge> 0) d"
  have shdd: "shape dd = pre @ [1]"
    unfolding dd_def by (rule shape_shifted_dist [OF s sg]) (simp add: l)
  have shu: "shape u = pre @ [1]" by (simp add: u_def shape_improves shdd s sg)
  have fz: "shape fz = pre @ [1]" "\<And>j. \<not> el fz j"
    by (simp_all add: fz_def zeros_like_def zeros_def shu)
  have r: "prime_step dx signs dims d (e, s) =
             (if go then (where3 cond (shifted e dims d) e, where3 u dd s) else (e, s))"
    unfolding prime_step_unfold go_def cond_def us_def fz_def u_def dd_def by (rule refl)
  show "shape (snd (prime_step dx signs dims d (e, s))) = pre @ [1]"
    by (simp add: r s shu shdd)
  show "fst (prime_step dx signs dims d (e, s)) = e
         \<or> (dims \<noteq> []
            \<and> shape (fst (prime_step dx signs dims d (e, s)))
               = pre @ [bdim (bdim (length dims) ce) ce]
            \<and> (\<forall>k. el (fst (prime_step dx signs dims d (e, s))) (p @ [k])
                     = el e (p @ [if ce = 1 then 0 else k])))"
  proof (cases go)
    case False
    then show ?thesis by (simp add: r)
  next
    case True
    have nu: "\<not> el u (p @ [0])" unfolding u_def by (rule improves_interior [OF sg p neg])
    have mem: "x = fz \<or> x = u" if "x \<in> set us" for x
      using that unfolding us_def by (auto split: if_splits)
    have all: "\<forall>x \<in> set us. \<not> el x (p @ [0]) \<and> last (shape x) = 1"
      using mem nu shu fz by fastforce
    have shs: "\<forall>x \<in> set us. shape x = pre @ [1]"
      using mem shu fz by fastforce
    have f: "\<not> el cond (p @ [k])" for k
      unfolding cond_def el_concat_last
      by (rule concat_at_False [OF all])
    have "\<not> list_all (\<lambda>x. x \<le> 0) d" using True by (simp add: go_def)
    then have "d \<noteq> []" by auto
    then have ne: "dims \<noteq> []" using ld by auto
    then have "us \<noteq> []" by (simp add: us_def)
    then have hd: "shape (hd us) = pre @ [1]" using shs by (cases us) auto
    have "sum_list (map (\<lambda>t. last (shape t)) us) = length us"
      by (rule sum_list_ones) (use all in blast)
    moreover have "length us = length dims" by (simp add: us_def)
    ultimately have shc: "shape cond = pre @ [length dims]"
      by (simp add: cond_def shape_concat_last hd)
    have shdf: "shape (shifted e dims d) = pre @ [ce]"
      using shape_shifted [of e dims d] by (simp add: e l)
    note w = where3_interior [OF e shdf shc p f]
    show ?thesis using True w ne by (simp add: r)
  qed
qed

lemma kept_step:
  assumes compat: "c = 1 \<or> c = r \<or> r = 1"
    and k: "interior_kept pre c r t p (e, s)"
    and s': "shape s' = pre @ [1]"
    and R: "\<And>ce. shape e = pre @ [ce] \<Longrightarrow>
              e' = e \<or> (0 < r \<and> shape e' = pre @ [bdim (bdim r ce) ce]
                        \<and> (\<forall>k. el e' (p @ [k]) = el e (p @ [if ce = 1 then 0 else k])))"
  shows "interior_kept pre c r t p (e', s')"
proof -
  from k obtain ce where ce: "shape e = pre @ [ce]" "ce = c \<or> (ce = r \<and> 1 < r)"
    "\<forall>k < ce. el e (p @ [k]) = el t (p @ [if c = 1 then 0 else k])"
    by (auto simp: interior_kept_def)
  from R [OF ce(1)] show ?thesis
  proof
    assume "e' = e"
    then show ?thesis using k s' by (simp add: interior_kept_def)
  next
    assume a: "0 < r \<and> shape e' = pre @ [bdim (bdim r ce) ce]
                 \<and> (\<forall>k. el e' (p @ [k]) = el e (p @ [if ce = 1 then 0 else k]))"
    let ?ce' = "bdim (bdim r ce) ce"
    have v: "?ce' = (if r = 1 then ce else r)" by (simp add: bdim_def)
    have 1: "?ce' = c \<or> (?ce' = r \<and> 1 < r)" unfolding v using ce(2) a by auto
    have 2: "el e' (p @ [k]) = el t (p @ [if c = 1 then 0 else k])" if "k < ?ce'" for k
    proof -
      let ?k1 = "if ce = 1 then 0 else k"
      have lt: "?k1 < ce" using that ce(2) compat unfolding v by (auto split: if_splits)
      have "el e' (p @ [k]) = el e (p @ [?k1])" using a by blast
      also have "\<dots> = el t (p @ [if c = 1 then 0 else ?k1])" using ce(3) lt by blast
      also have "(if c = 1 then 0 else ?k1) = (if c = 1 then 0 else k)"
        using that ce(2) compat unfolding v by (auto split: if_splits)
      finally show ?thesis .
    qed
    have "shape e' = pre @ [?ce']" using a by blast
    with 1 2 s' show ?thesis unfolding interior_kept_def by auto
  qed
qed

lemma relax_step_kept:
  assumes compat: "c = 1 \<or> c = length dims \<or> length dims = 1"
    and sg: "shape signs = pre @ [1]" and l: "length pre = length dims + 1"
    and p: "valid pre p" and neg: "el signs (p @ [0]) < 0" and ld: "length d = length dims"
    and k: "interior_kept pre c (length dims) t p st"
  shows "interior_kept pre c (length dims) t p (relax_step dx signs dims d st)"
proof -
  obtain e s where st: "st = (e, s)" by (cases st)
  have s: "shape s = pre @ [1]" using k by (simp add: st interior_kept_def)
  obtain e' s' where r: "relax_step dx signs dims d (e, s) = (e', s')"
    by (cases "relax_step dx signs dims d (e, s)")
  have "interior_kept pre c (length dims) t p (e', s')"
  proof (rule kept_step [OF compat k [unfolded st]])
    fix ce assume e: "shape e = pre @ [ce]"
    from relax_step_interior [OF e s sg l p neg ld, of dx]
    show "e' = e \<or> (0 < length dims \<and> shape e' = pre @ [bdim (bdim (length dims) ce) ce]
                        \<and> (\<forall>k. el e' (p @ [k]) = el e (p @ [if ce = 1 then 0 else k])))"
      by (simp add: r)
  next
    obtain ce where e: "shape e = pre @ [ce]" using k by (auto simp: st interior_kept_def)
    from relax_step_interior(1) [OF e s sg l p neg ld, of dx]
    show "shape s' = pre @ [1]" by (simp add: r)
  qed
  then show ?thesis by (simp add: st r)
qed

lemma prime_step_kept:
  assumes compat: "c = 1 \<or> c = length dims \<or> length dims = 1"
    and sg: "shape signs = pre @ [1]" and l: "length pre = length dims + 1"
    and p: "valid pre p" and neg: "el signs (p @ [0]) < 0" and ld: "length d = length dims"
    and k: "interior_kept pre c (length dims) t p st"
  shows "interior_kept pre c (length dims) t p (prime_step dx signs dims d st)"
proof -
  obtain e s where st: "st = (e, s)" by (cases st)
  have s: "shape s = pre @ [1]" using k by (simp add: st interior_kept_def)
  obtain e' s' where r: "prime_step dx signs dims d (e, s) = (e', s')"
    by (cases "prime_step dx signs dims d (e, s)")
  have "interior_kept pre c (length dims) t p (e', s')"
  proof (rule kept_step [OF compat k [unfolded st]])
    fix ce assume e: "shape e = pre @ [ce]"
    from prime_step_interior [OF e s sg l p neg ld, of dx]
    show "e' = e \<or> (0 < length dims \<and> shape e' = pre @ [bdim (bdim (length dims) ce) ce]
                        \<and> (\<forall>k. el e' (p @ [k]) = el e (p @ [if ce = 1 then 0 else k])))"
      by (simp add: r)
  next
    obtain ce where e: "shape e = pre @ [ce]" using k by (auto simp: st interior_kept_def)
    from prime_step_interior(1) [OF e s sg l p neg ld, of dx]
    show "shape s' = pre @ [1]" by (simp add: r)
  qed
  then show ?thesis by (simp add: st r)
qed

lemma fold_kept:
  assumes "\<And>d st. d \<in> set ds \<Longrightarrow> P st \<Longrightarrow> P (f d st)" "P st"
  shows "P (fold f ds st)"
  using assms by (induction ds arbitrary: st) auto

lemma directions_length: "d \<in> set (directions r) \<Longrightarrow> length d = r"
  by (auto simp: directions_def dest: in_set_product_lists_length)

lemma sweeps_kept:
  assumes compat: "c = 1 \<or> c = length dims \<or> length dims = 1"
    and sg: "shape signs = pre @ [1]" and l: "length pre = length dims + 1"
    and p: "valid pre p" and neg: "el signs (p @ [0]) < 0"
    and k: "interior_kept pre c (length dims) t p st"
  shows "interior_kept pre c (length dims) t p
           (sweeps n dx signs dims (directions (length dims)) st)"
  using k
proof (induction n arbitrary: st)
  case 0
  then show ?case by simp
next
  case (Suc n)
  have "interior_kept pre c (length dims) t p (sweep dx signs dims (directions (length dims)) st)"
    unfolding sweep_def
    by (rule fold_kept [where P = "interior_kept pre c (length dims) t p"])
      (auto intro!: relax_step_kept [OF compat sg l p neg] Suc.prems dest: directions_length)
  from Suc.IH [OF this] show ?case by simp
qed

lemma surface_axis_shape:
  assumes len: "2 \<le> length (shape m)" and b: "shape bcs = shape m"
  defines "r \<equiv> length (shape m) - 2"
  defines "mp \<equiv> pad m ([(0, 0)] @ replicate r (1, 1) @ [(0, 0)]) Symmetric"
  shows "shape (surface_axis mp [0..<r] d bcs) = shape m"
proof -
  define U where "U = getitem mp ([full] @ map (\<lambda>i. if i = d then Slice (Some 2) None
                                   else Slice (Some 1) (Some (- 1))) [0..<r] @ [full])"
  define C where "C = getitem mp ([full] @ map (\<lambda>i. Slice (Some 1) (Some (- 1))) [0..<r] @ [full])"
  define L where "L = getitem mp ([full] @ map (\<lambda>i. if i = d then Slice (Some 0) (Some (- 2))
                                   else Slice (Some 1) (Some (- 1))) [0..<r] @ [full])"
  have sh: "shape U = shape m" "shape C = shape m" "shape L = shape m"
    unfolding U_def C_def L_def mp_def r_def by (rule surface_slice_shape [OF len]; simp)+
  have a: "surface_axis mp [0..<r] d bcs =
             tmap2 max (tmap2 max bcs (tmap2 (-) (tmap2 max U C) U))
               (tmap2 (-) (tmap2 max C L) L)"
    by (simp add: surface_axis_def Let_def U_def C_def L_def)
  show ?thesis unfolding a by (simp add: sh b)
qed

lemma create_surface_mask_shape:
  assumes len: "2 \<le> length (shape m)"
  shows "shape (create_surface_mask m) = shape m"
  unfolding create_surface_mask_fold [OF len]
  by (rule fold_kept [where P = "\<lambda>b. shape b = shape m"])
    (simp_all only: surface_axis_shape [OF len] zeros_like_def zeros_def tensor.simps)

lemma shape_initial_distance:
  assumes "2 \<le> length (shape m)"
  shows "shape (initial_distance m n) = shape m"
  by (simp add: initial_distance_def Let_def create_surface_mask_shape [OF assms] tscale_def
      ones_like_def)

lemma shape_sign_of [simp]: "shape (sign_of m) = shape m"
  by (simp add: sign_of_def)

lemma extrapolate_field:
  "field_tensor (snd (extrapolate f m dx n)) =
     fst (sweeps (nat n) dx (sign_of (ext_mask f m)) [0..<spatial_rank (field_tensor f)]
            (directions (spatial_rank (field_tensor f)))
            (if is_staggered f
             then fold (prime_step dx (sign_of (ext_mask f m)) [0..<spatial_rank (field_tensor f)])
                    (directions (spatial_rank (field_tensor f)))
                    (case f of Staggered s \<Rightarrow> s | Centered t \<Rightarrow> tscale 1 t,
                     initial_distance (ext_mask f m) n)
             else (case f of Staggered s \<Rightarrow> s | Centered t \<Rightarrow> tscale 1 t,
                   initial_distance (ext_mask f m) n)))"
  unfolding extrapolate_def Let_def
  by (cases f) (simp_all split: prod.splits)


lemma valid_snoc: "length p = length pre \<Longrightarrow> valid (pre @ [n]) (p @ [k]) \<longleftrightarrow> valid pre p \<and> k < n"
  by (simp add: valid_def list_all2_append)

lemma sweeps_interior:
  assumes compat: "ce = 1 \<or> ce = length dims \<or> length dims = 1"
    and e: "shape e = pre @ [ce]" and s: "shape s = pre @ [1]"
    and sg: "shape signs = pre @ [1]" and l: "length pre = length dims + 1"
    and p: "valid pre p" and neg: "el signs (p @ [0]) < 0" and k: "k < ce"
  shows "el (fst (sweeps j dx signs dims (directions (length dims)) (e, s))) (p @ [k])
           = el e (p @ [k])"
proof -
  have "interior_kept pre ce (length dims) e p (e, s)"
    unfolding interior_kept_def using e s by auto
  from sweeps_kept [OF compat sg l p neg this, of j dx]
  obtain ce' where c: "ce' = ce \<or> (ce' = length dims \<and> 1 < length dims)"
    "\<forall>k < ce'. el (fst (sweeps j dx signs dims (directions (length dims)) (e, s))) (p @ [k])
        = el e (p @ [if ce = 1 then 0 else k])"
    unfolding interior_kept_def by auto
  have "k < ce'" using c(1) k compat by auto
  moreover have "(if ce = 1 then 0 else k) = k" using k by auto
  ultimately show ?thesis using c(2) by auto
qed

text \<open>
  C1.  \<open>extrapolate\<close> never overwrites interior-fluid cells.  Let the mask (for a staggered
  grid: the mask padded as \<open>extrapolate\<close> pads it) cover the batch and spatial extent of the
  field with one component, and let the number of components of the field be one the update
  mask can be broadcast against (1, or the rank, or any number on a grid of rank 1).  Then at
  every cell \<open>p\<close> where the sign \<open>-(2 * mask - 1)\<close> is negative, every component of the
  extrapolated field is the value the input field has there, for every \<open>dx\<close> and every
  number of sweeps; and any number of further sweeps, from any distance array, leaves those
  entries as they are.
\<close>

theorem extrapolate_keeps_interior:
  fixes f :: field and m :: "real tensor" and dx :: real and n :: int
  defines "t \<equiv> field_tensor f"
  defines "out \<equiv> field_tensor (snd (extrapolate f m dx n))"
  defines "signs \<equiv> sign_of (ext_mask f m)"
  assumes len: "2 \<le> length (shape t)"
    and msk: "shape (ext_mask f m) = butlast (shape t) @ [1]"
    and compat: "last (shape t) = 1 \<or> last (shape t) = spatial_rank t \<or> spatial_rank t = 1"
    and p: "valid (butlast (shape t)) p"
    and neg: "el signs (p @ [0]) < 0"
  shows "butlast (shape out) = butlast (shape t)
    \<and> (last (shape out) = last (shape t)
         \<or> (last (shape out) = spatial_rank t \<and> 1 < spatial_rank t))
    \<and> (\<forall>k < last (shape out). el out (p @ [k]) = rd t (p @ [k]))
    \<and> (\<forall>s j. \<forall>k < last (shape out). shape s = shape (ext_mask f m) \<longrightarrow>
          el (fst (sweeps j dx signs [0..<spatial_rank t] (directions (spatial_rank t)) (out, s)))
             (p @ [k]) = el out (p @ [k]))"
proof -
  define pre where "pre = butlast (shape t)"
  define c where "c = last (shape t)"
  define r where "r = spatial_rank t"
  define dims where "dims = [0..<r]"
  define e0 where "e0 = (case f of Staggered s \<Rightarrow> s | Centered t \<Rightarrow> tscale 1 t)"
  define s0 where "s0 = initial_distance (ext_mask f m) n"
  define st1 where "st1 = (if is_staggered f
                           then fold (prime_step dx signs dims) (directions r) (e0, s0)
                           else (e0, s0))"
  have ne: "shape t \<noteq> []" using len by auto
  have sht: "shape t = pre @ [c]" using ne by (simp add: pre_def c_def)
  have ld: "length dims = r" by (simp add: dims_def)
  have lp: "length pre = length dims + 1"
    using len by (simp add: pre_def ld r_def spatial_rank_def)
  have cp: "c = 1 \<or> c = length dims \<or> length dims = 1"
    using compat by (simp add: c_def ld r_def)
  have shm: "shape (ext_mask f m) = pre @ [1]" using msk by (simp add: pre_def)
  have lm: "2 \<le> length (shape (ext_mask f m))" using lp by (simp add: shm)
  have sg: "shape signs = pre @ [1]" by (simp add: signs_def shm)
  have shs0: "shape s0 = pre @ [1]"
    unfolding s0_def by (simp add: shape_initial_distance [OF lm] shm)
  have e0t: "shape e0 = shape t \<and> (\<forall>i. el e0 i = el t i)"
    unfolding e0_def t_def by (cases f) (simp_all add: tscale_def)
  have e0: "shape e0 = pre @ [c]" "\<And>i. el e0 i = el t i"
    using e0t sht by auto
  have pv: "valid pre p" using p by (simp add: pre_def)
  have k0: "interior_kept pre c (length dims) t p (e0, s0)"
    unfolding interior_kept_def using e0 shs0 by auto
  have k1: "interior_kept pre c (length dims) t p st1"
    unfolding st1_def ld [symmetric]
    by (auto intro!: fold_kept [where P = "interior_kept pre c (length dims) t p"]
          prime_step_kept [OF cp sg lp pv neg] k0 dest: directions_length)
  have o: "out = fst (sweeps (nat n) dx signs dims (directions (length dims)) st1)"
    unfolding out_def extrapolate_field st1_def e0_def s0_def signs_def dims_def r_def t_def ld
    by simp
  have "interior_kept pre c (length dims) t p (out, snd (sweeps (nat n) dx signs dims
          (directions (length dims)) st1))"
    using sweeps_kept [OF cp sg lp pv neg k1, of "nat n" dx] unfolding o by simp
  then have "\<exists>ce. shape out = pre @ [ce] \<and> (ce = c \<or> (ce = r \<and> 1 < r))
    \<and> (\<forall>k < ce. el out (p @ [k]) = el t (p @ [if c = 1 then 0 else k]))"
    unfolding interior_kept_def fst_conv ld by (rule conjunct2)
  then obtain ce where ce: "shape out = pre @ [ce]" "ce = c \<or> (ce = r \<and> 1 < r)"
    "\<forall>k < ce. el out (p @ [k]) = el t (p @ [if c = 1 then 0 else k])"
    by (elim exE conjE)
  have 1: "butlast (shape out) = butlast (shape t)" by (simp add: ce(1) pre_def)
  have 2: "last (shape out) = last (shape t)
         \<or> (last (shape out) = spatial_rank t \<and> 1 < spatial_rank t)"
    using ce(2) by (simp add: ce(1) c_def r_def)
  have rdt: "rd t (p @ [k]) = el t (p @ [if c = 1 then 0 else k])" for k
    using pv by (simp add: rd_def sht bidx_append valid_length bidx_valid)
  have 3: "\<forall>k < last (shape out). el out (p @ [k]) = rd t (p @ [k])"
    using ce(3) by (simp add: ce(1) rdt)
  have cpe: "ce = 1 \<or> ce = length dims \<or> length dims = 1" using ce(2) cp ld by auto
  have 4: "el (fst (sweeps j dx signs [0..<spatial_rank t] (directions (spatial_rank t)) (out, s)))
             (p @ [k]) = el out (p @ [k])"
    if "k < last (shape out)" "shape s = shape (ext_mask f m)" for s j k
  proof -
    have s: "shape s = pre @ [1]" using that(2) shm by simp
    have k: "k < ce" using that(1) by (simp add: ce(1))
    from sweeps_interior [OF cpe ce(1) s sg lp pv neg k, of j dx]
    show ?thesis by (simp add: ld dims_def r_def)
  qed
  show ?thesis using 1 2 3 4 by blast
qed


theorem extrapolate_keeps_interior_witness:
  "2 \<le> length (shape ramp3) \<and> valid (butlast (shape ramp3)) [0, 2]
   \<and> el (sign_of (ext_mask (Centered ramp3) mask101)) ([0, 2] @ [0]) < 0
   \<and> el (field_tensor (snd (extrapolate (Centered ramp3) mask101 1 2))) [0, 2, 0] = 2"
proof -
  have a: "2 \<le> length (shape (field_tensor (Centered ramp3)))"
    "shape (ext_mask (Centered ramp3) mask101)
       = butlast (shape (field_tensor (Centered ramp3))) @ [1]"
    "last (shape (field_tensor (Centered ramp3))) = 1
       \<or> last (shape (field_tensor (Centered ramp3))) = spatial_rank (field_tensor (Centered ramp3))
       \<or> spatial_rank (field_tensor (Centered ramp3)) = 1"
    "valid (butlast (shape (field_tensor (Centered ramp3)))) [0, 2]"
    "el (sign_of (ext_mask (Centered ramp3) mask101)) ([0, 2] @ [0]) < 0"
    by (simp_all add: ramp3_def mask101_def ext_mask_def sign_of_def valid_def spatial_rank_def)
  note t = extrapolate_keeps_interior [OF a, of 1 2]
  let ?out = "field_tensor (snd (extrapolate (Centered ramp3) mask101 1 2))"
  have l: "last (shape ?out) = 1"
    using t by (auto simp: ramp3_def spatial_rank_def)
  have "\<forall>k < last (shape ?out). el ?out ([0, 2] @ [k]) = rd (field_tensor (Centered ramp3)) ([0, 2] @ [k])"
    using t by blast
  then have "el ?out ([0, 2] @ [0]) = rd (field_tensor (Centered ramp3)) ([0, 2] @ [0])"
    using l by simp
  moreover have "rd (field_tensor (Centered ramp3)) ([0, 2] @ [0]) = 2"
    by (simp add: rd_def ramp3_def bidx_def)
  ultimately have "el ?out [0, 2, 0] = 2" by simp
  then show ?thesis using a by simp
qed

section \<open>Order of the offsets within a sweep\<close>

lemma shifted_line:
  assumes "shape t = [1, 3, 1, c]" "a = - 1 \<or> a = 0 \<or> a = 1" "b = - 1 \<or> b = 0 \<or> b = 1"
    "j = 0 \<or> j = 1 \<or> j = 2" "k < c"
  shows "el (shifted t [0, Suc 0] [a, b]) [0, j, 0, k]
           = el t [0, (if a = - 1 then min (j + 1) 2 else if a = 1 then j - 1 else j), 0, k]"
  using assms
  by (auto simp: shifted_def pad_def getitem_def Let_def full_def sym_src_def slice_bound_def
      numeral_2_eq_2)


lemma snapshot_step_line:
  fixes dx :: real
  assumes snap: "on_line snap F0 S0" and st: "on_line st F S"
    and sg: "shape signs = [1, 3, 1, 1]"
    and G: "list_all (\<lambda>j. el signs [0, j, 0, 0] = G j) [0, 1, 2]"
    and a: "a = - 1 \<or> a = 0 \<or> a = 1" and b: "b = - 1 \<or> b = 0 \<or> b = 1"
    and nz: "\<not> (a = 0 \<and> b = 0)"
  defines "src \<equiv> \<lambda>j :: nat. if a = - 1 then min (j + 1) 2 else if a = 1 then j - 1 else j"
  defines "cand \<equiv> \<lambda>j. S0 (src j) + dx * sqrt (real_of_int (a * a + b * b)) * G j"
  defines "upd \<equiv> \<lambda>j. \<bar>cand j\<bar> < \<bar>S j\<bar> \<and> 0 \<le> G j"
  shows "on_line (snapshot_step dx signs [0, Suc 0] snap [a, b] st)
           (\<lambda>j. if upd j then F0 (src j) else F j) (\<lambda>j. if upd j then cand j else S j)"
proof -
  obtain f0 s0 where sn: "snap = (f0, s0)" by (cases snap)
  obtain e s where se: "st = (e, s)" by (cases st)
  have sh: "shape f0 = [1, 3, 1, 2]" "shape s0 = [1, 3, 1, 1]" "shape e = [1, 3, 1, 2]"
    "shape s = [1, 3, 1, 1]"
    using snap st by (simp_all add: on_line_def sn se)
  have t0: "el s0 [0, j, 0, 0] = S0 j" "el f0 [0, j, 0, 0] = F0 j" "el f0 [0, j, 0, 1] = F0 j"
    if "j = 0 \<or> j = 1 \<or> j = 2" for j
    using snap that by (auto simp: on_line_def sn)
  have t1: "el s [0, j, 0, 0] = S j" "el e [0, j, 0, 0] = F j" "el e [0, j, 0, 1] = F j"
    "el signs [0, j, 0, 0] = G j"
    if "j = 0 \<or> j = 1 \<or> j = 2" for j
    using st G that by (auto simp: on_line_def se)
  have srcv: "src j = 0 \<or> src j = 1 \<or> src j = 2" if "j = 0 \<or> j = 1 \<or> j = 2" for j
    using that a by (auto simp: src_def)
  define dd where "dd = shifted_dist dx signs s0 [0, Suc 0] [a, b]"
  define u where "u = improves dd s signs"
  have shd: "shape (shifted s0 [0, Suc 0] [a, b]) = [1, 3, 1, 1]"
    "shape (shifted f0 [0, Suc 0] [a, b]) = [1, 3, 1, 2]"
    by (simp_all add: shape_shifted sh)
  have shdd: "shape dd = [1, 3, 1, 1]"
    by (simp add: dd_def shifted_dist_def shd sg tscale_def)
  have shu: "shape u = [1, 3, 1, 1]"
    by (simp add: u_def shape_improves shdd sh sg)
  have dot: "sqrt (real_of_int (dot [a, b] [a, b])) = sqrt (real_of_int (a * a + b * b))"
    by (simp add: dot_def)
  have edd: "el dd [0, j, 0, 0] = cand j" if j: "j = 0 \<or> j = 1 \<or> j = 2" for j
    using shifted_line [OF sh(2) a b j, of 0] t0(1) [OF srcv [OF j]] t1(4) [OF j] j
    by (auto simp: dd_def shifted_dist_def rd_def shd sg dot bidx_def tscale_def cand_def
        src_def)
  have eu: "el u [0, j, 0, 0] = upd j" if j: "j = 0 \<or> j = 1 \<or> j = 2" for j
    using edd [OF j] t1(1,4) [OF j] j
    by (auto simp: u_def improves_def rd_def tabs_def shdd sh sg bidx_def upd_def bshape_def
        bdim_def)
  have r: "snapshot_step dx signs [0, Suc 0] snap [a, b] st =
             (where3 (concat_last (replicate (spatial_rank e) u)) (shifted f0 [0, Suc 0] [a, b]) e,
              where3 u dd s)"
  proof -
    have "\<not> list_all (\<lambda>x. x = 0) [a, b]" using nz by simp
    then show ?thesis
      unfolding snapshot_step_def sn se Let_def u_def dd_def prod.case by (simp only: if_False)
  qed
  have sr: "replicate (spatial_rank e) u = [u, u]"
    by (simp add: spatial_rank_def sh numeral_2_eq_2)
  have shc: "shape (concat_last [u, u]) = [1, 3, 1, 2]"
    by (simp add: shape_concat_last shu)
  have ec: "el (concat_last [u, u]) [0, j, 0, k] = upd j"
    if j: "j = 0 \<or> j = 1 \<or> j = 2" and k: "k = 0 \<or> k = 1" for j k
    using eu [OF j] k el_concat_last [of "[u, u]" "[0, j, 0]" k]
    by (auto simp: shu)
  have ef: "el (shifted f0 [0, Suc 0] [a, b]) [0, j, 0, k] = F0 (src j)"
    if j: "j = 0 \<or> j = 1 \<or> j = 2" and k: "k = 0 \<or> k = 1" for j k
    using shifted_line [OF sh(1) a b j, of k] t0(2,3) [OF srcv [OF j]] k
    by (auto simp: src_def)
  have 1: "el (where3 u dd s) [0, j, 0, 0] = (if upd j then cand j else S j)"
    if j: "j = 0 \<or> j = 1 \<or> j = 2" for j
    using eu [OF j] edd [OF j] t1(1) [OF j] j
    by (auto simp: rd_def shu shdd sh bidx_def)
  have 2: "el (where3 (concat_last [u, u]) (shifted f0 [0, Suc 0] [a, b]) e) [0, j, 0, k]
             = (if upd j then F0 (src j) else F j)"
    if j: "j = 0 \<or> j = 1 \<or> j = 2" and k: "k = 0 \<or> k = 1" for j k
    using ec [OF j k] ef [OF j k] t1(2,3) [OF j] j k
    by (auto simp: rd_def shc shd sh bidx_def)
  have 3: "shape (where3 u dd s) = [1, 3, 1, 1]"
    "shape (where3 (concat_last [u, u]) (shifted f0 [0, Suc 0] [a, b]) e) = [1, 3, 1, 2]"
    by (simp_all add: shu shdd sh shc shd bshape_def bdim_def)
  show ?thesis
    unfolding on_line_def r sr using 1 2 3 by simp
qed

lemma relax_step_snapshot:
  "relax_step dx signs dims d st = snapshot_step dx signs dims st d st"
  by (cases st) (simp add: relax_step_def snapshot_step_def)

lemma relax_step_zero: "relax_step dx signs dims [0, 0] st = st"
  by (cases st) (simp add: relax_step_def)

lemma snapshot_step_zero: "snapshot_step dx signs dims snap [0, 0] st = st"
  by (cases st; cases snap) (simp add: snapshot_step_def)

lemma on_line_cong:
  assumes "on_line st F S"
    and "F 0 = F' 0" "F 1 = F' 1" "F 2 = F' 2" "S 0 = S' 0" "S 1 = S' 1" "S 2 = S' 2"
  shows "on_line st F' S'"
  using assms by (simp add: on_line_def)

lemma mask3_surface:
  assumes j: "j = 0 \<or> j = 1 \<or> j = 2"
  shows "el (create_surface_mask mask3) [0, j, 0, 0] = (if j = 2 then 1 else 0)"
proof -
  have len: "2 \<le> length (shape mask3)" by (simp add: mask3_def)
  have v: "valid (shape mask3) [0, j, 0, 0]" using j by (auto simp: mask3_def valid_def)
  have bin: "\<forall>i. valid (shape mask3) i \<longrightarrow> el mask3 i = 0 \<or> el mask3 i = 1"
    by (simp add: mask3_def)
  have sub: "set [0..<length (shape mask3) - 2] \<subseteq> {0..<length (shape mask3) - 2}" by simp
  have z: "shape (zeros_like mask3) = shape mask3"
    "el (zeros_like mask3) [0, j, 0, 0] = 0 \<or> el (zeros_like mask3) [0, j, 0, 0] = 1"
    by (simp_all add: zeros_like_def zeros_def)
  note f = surface_fold [OF len v bin sub z, THEN conjunct2]
  have m: "el mask3 [a, b, c, d] = (if b = 2 then 1 else 0)" for a b c d
    by (simp add: mask3_def)
  have l: "length (shape mask3) - 2 = 2" "shape mask3 = [1, 3, 1, 1]" by (simp_all add: mask3_def)
  have u: "[0..<2] = [0, 1]" by (simp add: numeral_2_eq_2)
  show ?thesis
    unfolding create_surface_mask_fold [OF len] f
    using j by (auto simp: l u m zeros_like_def zeros_def)
qed


lemma directions_2:
  "directions 2 = [[- 1, - 1], [- 1, 0], [- 1, 1], [0, - 1], [0, 0], [0, 1], [1, - 1], [1, 0], [1, 1]]"
  by (simp add: directions_def numeral_2_eq_2)

lemma signs_line:
  "shape (sign_of mask3) = [1, 3, 1, 1]"
  "list_all (\<lambda>j. el (sign_of mask3) [0, j, 0, 0] = (if j = 2 then - 1 else 1)) [0, 1, 2]"
  by (simp_all add: sign_of_def mask3_def)

lemma start_line:
  "on_line (tscale 1 fld3, initial_distance mask3 1) (\<lambda>j. real j) (\<lambda>j. if j = 2 then 0 else 4)"
proof -
  have len: "2 \<le> length (shape mask3)" by (simp add: mask3_def)
  have sh: "shape (create_surface_mask mask3) = [1, 3, 1, 1]"
    using create_surface_mask_shape [OF len] by (simp add: mask3_def)
  have m: "shape mask3 = [1, 3, 1, 1]" "\<And>a b c d. el mask3 [a, b, c, d] = (if b = 2 then 1 else 0)"
    by (simp_all add: mask3_def)
  have d: "el (initial_distance mask3 1) [0, j, 0, 0] = (if j = 2 then 0 else 4)"
    if j: "j = 0 \<or> j = 1 \<or> j = 2" for j
    using mask3_surface [OF j] j
    by (auto simp: initial_distance_def Let_def rd_def sh m bidx_def tscale_def ones_like_def)
  have "shape (initial_distance mask3 1) = [1, 3, 1, 1]"
    using shape_initial_distance [OF len] by (simp add: m)
  then show ?thesis
    using d by (simp add: on_line_def tscale_def fld3_def)
qed


lemma sqrt2_bounds: "1 < sqrt 2" "sqrt 2 < 2"
proof -
  show "1 < sqrt 2" by simp
  show "sqrt 2 < 2" by (rule real_less_lsqrt) (simp_all add: power2_eq_square)
qed

lemma code_run:
  "on_line (sweep 1 (sign_of mask3) [0, Suc 0] (directions 2)
              (tscale 1 fld3, initial_distance mask3 1))
     (\<lambda>j. 2) (\<lambda>j. [sqrt 2 + 1, 1, 0] ! j)"
proof -
  define q where "q = sqrt 2"
  have q: "1 < q" "q < 2" using sqrt2_bounds by (simp_all add: q_def)
  have qs: "sqrt 2 = q" by (simp add: q_def)
  note sg = signs_line(1) and G = signs_line(2)
  define s0 where "s0 = (tscale 1 fld3, initial_distance mask3 1)"
  define s1 where "s1 = relax_step 1 (sign_of mask3) [0, Suc 0] [- 1, - 1] s0"
  define s2 where "s2 = relax_step 1 (sign_of mask3) [0, Suc 0] [- 1, 0] s1"
  define s3 where "s3 = relax_step 1 (sign_of mask3) [0, Suc 0] [- 1, 1] s2"
  define s4 where "s4 = relax_step 1 (sign_of mask3) [0, Suc 0] [0, - 1] s3"
  define s6 where "s6 = relax_step 1 (sign_of mask3) [0, Suc 0] [0, 1] s4"
  define s7 where "s7 = relax_step 1 (sign_of mask3) [0, Suc 0] [1, - 1] s6"
  define s8 where "s8 = relax_step 1 (sign_of mask3) [0, Suc 0] [1, 0] s7"
  define s9 where "s9 = relax_step 1 (sign_of mask3) [0, Suc 0] [1, 1] s8"
  have l0: "on_line s0 (\<lambda>j. real j) (\<lambda>j. if j = 2 then 0 else 4)"
    unfolding s0_def by (rule start_line)
  have l1: "on_line s1 (\<lambda>j. [0, 2, 2] ! j) (\<lambda>j. [4, q, 0] ! j)"
    unfolding s1_def relax_step_snapshot
    by (rule on_line_cong [OF snapshot_step_line [OF l0 l0 sg G, of "- 1" "- 1" 1]])
      (use q in \<open>simp_all add: qs abs_if\<close>)
  have l2: "on_line s2 (\<lambda>j. 2) (\<lambda>j. [q + 1, 1, 0] ! j)"
    unfolding s2_def relax_step_snapshot
    by (rule on_line_cong [OF snapshot_step_line [OF l1 l1 sg G, of "- 1" 0 1]])
      (use q in \<open>simp_all add: qs abs_if\<close>)
  have l3: "on_line s3 (\<lambda>j. 2) (\<lambda>j. [q + 1, 1, 0] ! j)"
    unfolding s3_def relax_step_snapshot
    by (rule on_line_cong [OF snapshot_step_line [OF l2 l2 sg G, of "- 1" 1 1]])
      (use q in \<open>simp_all add: qs abs_if\<close>)
  have l4: "on_line s4 (\<lambda>j. 2) (\<lambda>j. [q + 1, 1, 0] ! j)"
    unfolding s4_def relax_step_snapshot
    by (rule on_line_cong [OF snapshot_step_line [OF l3 l3 sg G, of 0 "- 1" 1]])
      (use q in \<open>simp_all add: qs abs_if\<close>)
  have l6: "on_line s6 (\<lambda>j. 2) (\<lambda>j. [q + 1, 1, 0] ! j)"
    unfolding s6_def relax_step_snapshot
    by (rule on_line_cong [OF snapshot_step_line [OF l4 l4 sg G, of 0 1 1]])
      (use q in \<open>simp_all add: qs abs_if\<close>)
  have l7: "on_line s7 (\<lambda>j. 2) (\<lambda>j. [q + 1, 1, 0] ! j)"
    unfolding s7_def relax_step_snapshot
    by (rule on_line_cong [OF snapshot_step_line [OF l6 l6 sg G, of 1 "- 1" 1]])
      (use q in \<open>simp_all add: qs abs_if\<close>)
  have l8: "on_line s8 (\<lambda>j. 2) (\<lambda>j. [q + 1, 1, 0] ! j)"
    unfolding s8_def relax_step_snapshot
    by (rule on_line_cong [OF snapshot_step_line [OF l7 l7 sg G, of 1 0 1]])
      (use q in \<open>simp_all add: qs abs_if\<close>)
  have l9: "on_line s9 (\<lambda>j. 2) (\<lambda>j. [q + 1, 1, 0] ! j)"
    unfolding s9_def relax_step_snapshot
    by (rule on_line_cong [OF snapshot_step_line [OF l8 l8 sg G, of 1 1 1]])
      (use q in \<open>simp_all add: qs abs_if\<close>)
  have "sweep 1 (sign_of mask3) [0, Suc 0] (directions 2) s0 = s9"
    unfolding sweep_def directions_2 s9_def s8_def s7_def s6_def s4_def s3_def s2_def s1_def
    by (simp add: relax_step_zero)
  then show ?thesis using l9 by (simp add: s0_def q_def)
qed


lemma snapshot_run:
  "on_line (snapshot_sweep 1 (sign_of mask3) [0, Suc 0] (directions 2)
              (tscale 1 fld3, initial_distance mask3 1))
     (\<lambda>j. [0, 2, 2] ! j) (\<lambda>j. [4, 1, 0] ! j)"
proof -
  define q where "q = sqrt 2"
  have q: "1 < q" "q < 2" using sqrt2_bounds by (simp_all add: q_def)
  have qs: "sqrt 2 = q" by (simp add: q_def)
  note sg = signs_line(1) and G = signs_line(2)
  define s0 where "s0 = (tscale 1 fld3, initial_distance mask3 1)"
  define s1 where "s1 = snapshot_step 1 (sign_of mask3) [0, Suc 0] s0 [- 1, - 1] s0"
  define s2 where "s2 = snapshot_step 1 (sign_of mask3) [0, Suc 0] s0 [- 1, 0] s1"
  define s3 where "s3 = snapshot_step 1 (sign_of mask3) [0, Suc 0] s0 [- 1, 1] s2"
  define s4 where "s4 = snapshot_step 1 (sign_of mask3) [0, Suc 0] s0 [0, - 1] s3"
  define s6 where "s6 = snapshot_step 1 (sign_of mask3) [0, Suc 0] s0 [0, 1] s4"
  define s7 where "s7 = snapshot_step 1 (sign_of mask3) [0, Suc 0] s0 [1, - 1] s6"
  define s8 where "s8 = snapshot_step 1 (sign_of mask3) [0, Suc 0] s0 [1, 0] s7"
  define s9 where "s9 = snapshot_step 1 (sign_of mask3) [0, Suc 0] s0 [1, 1] s8"
  have l0: "on_line s0 (\<lambda>j. real j) (\<lambda>j. if j = 2 then 0 else 4)"
    unfolding s0_def by (rule start_line)
  have l1: "on_line s1 (\<lambda>j. [0, 2, 2] ! j) (\<lambda>j. [4, q, 0] ! j)"
    unfolding s1_def
    by (rule on_line_cong [OF snapshot_step_line [OF l0 l0 sg G, of "- 1" "- 1" 1]])
      (use q in \<open>simp_all add: qs abs_if\<close>)
  have l2: "on_line s2 (\<lambda>j. [0, 2, 2] ! j) (\<lambda>j. [4, 1, 0] ! j)"
    unfolding s2_def
    by (rule on_line_cong [OF snapshot_step_line [OF l0 l1 sg G, of "- 1" 0 1]])
      (use q in \<open>simp_all add: qs abs_if\<close>)
  have l3: "on_line s3 (\<lambda>j. [0, 2, 2] ! j) (\<lambda>j. [4, 1, 0] ! j)"
    unfolding s3_def
    by (rule on_line_cong [OF snapshot_step_line [OF l0 l2 sg G, of "- 1" 1 1]])
      (use q in \<open>simp_all add: qs abs_if\<close>)
  have l4: "on_line s4 (\<lambda>j. [0, 2, 2] ! j) (\<lambda>j. [4, 1, 0] ! j)"
    unfolding s4_def
    by (rule on_line_cong [OF snapshot_step_line [OF l0 l3 sg G, of 0 "- 1" 1]])
      (use q in \<open>simp_all add: qs abs_if\<close>)
  have l6: "on_line s6 (\<lambda>j. [0, 2, 2] ! j) (\<lambda>j. [4, 1, 0] ! j)"
    unfolding s6_def
    by (rule on_line_cong [OF snapshot_step_line [OF l0 l4 sg G, of 0 1 1]])
      (use q in \<open>simp_all add: qs abs_if\<close>)
  have l7: "on_line s7 (\<lambda>j. [0, 2, 2] ! j) (\<lambda>j. [4, 1, 0] ! j)"
    unfolding s7_def
    by (rule on_line_cong [OF snapshot_step_line [OF l0 l6 sg G, of 1 "- 1" 1]])
      (use q in \<open>simp_all add: qs abs_if\<close>)
  have l8: "on_line s8 (\<lambda>j. [0, 2, 2] ! j) (\<lambda>j. [4, 1, 0] ! j)"
    unfolding s8_def
    by (rule on_line_cong [OF snapshot_step_line [OF l0 l7 sg G, of 1 0 1]])
      (use q in \<open>simp_all add: qs abs_if\<close>)
  have l9: "on_line s9 (\<lambda>j. [0, 2, 2] ! j) (\<lambda>j. [4, 1, 0] ! j)"
    unfolding s9_def
    by (rule on_line_cong [OF snapshot_step_line [OF l0 l8 sg G, of 1 1 1]])
      (use q in \<open>simp_all add: qs abs_if\<close>)
  have "snapshot_sweep 1 (sign_of mask3) [0, Suc 0] (directions 2) s0 = s9"
    unfolding snapshot_sweep_def directions_2 s9_def s8_def s7_def s6_def s4_def s3_def s2_def
      s1_def
    by (simp add: snapshot_step_zero)
  then show ?thesis using l9 by (simp add: s0_def)
qed

text \<open>
  C2 (as stated, refuted). The spec lets every offset of a sweep read the field and the distance
  from the sweep's starting snapshot. The loop of the source reads the running arrays: on three
  cells in a row of which only the last holds liquid, one sweep of \<open>extrapolate\<close> carries the
  value 2 of the last cell over two cells into the first one (offset \<open>(-1, -1)\<close> updates the
  middle cell, offset \<open>(-1, 0)\<close> then reads it), while the sweep that reads from the snapshot
  leaves the first cell at its value 0.
\<close>

theorem sweep_differs_from_snapshot:
  "el fld3 [0, 0, 0, 0] = 0
   \<and> el (field_tensor (snd (extrapolate (Centered fld3) mask3 1 1))) [0, 0, 0, 0] = 2
   \<and> el (fst (snapshot_sweep 1 (sign_of mask3) [0..<2] (directions 2)
                 (tscale 1 fld3, initial_distance mask3 1))) [0, 0, 0, 0] = 0"
proof -
  have u: "[0..<2] = [0, Suc 0]" by (simp add: numeral_2_eq_2)
  have sr: "spatial_rank fld3 = 2" by (simp add: spatial_rank_def fld3_def)
  have "field_tensor (snd (extrapolate (Centered fld3) mask3 1 1))
          = fst (sweep 1 (sign_of mask3) [0, Suc 0] (directions 2)
                   (tscale 1 fld3, initial_distance mask3 1))"
    unfolding extrapolate_field by (simp add: ext_mask_def sr u)
  moreover have "el (fst (sweep 1 (sign_of mask3) [0, Suc 0] (directions 2)
                   (tscale 1 fld3, initial_distance mask3 1))) [0, 0, 0, 0] = 2"
    using code_run by (simp add: on_line_def)
  moreover have "el (fst (snapshot_sweep 1 (sign_of mask3) [0, Suc 0] (directions 2)
                 (tscale 1 fld3, initial_distance mask3 1))) [0, 0, 0, 0] = 0"
    using snapshot_run by (simp add: on_line_def)
  ultimately show ?thesis by (simp add: u fld3_def)
qed

lemma directions_Suc:
  "directions (Suc r) = map (Cons (- 1)) (directions r) @ map (Cons 0) (directions r)
                          @ map (Cons 1) (directions r)"
  by (simp add: directions_def)

lemma zero_direction:
  "filter (list_all (\<lambda>x. x = 0)) (directions r) = [replicate r 0]"
proof (induction r)
  case 0
  then show ?case by (simp add: directions_def)
next
  case (Suc r)
  have "filter (list_all (\<lambda>x. x = 0)) (map (Cons a) ds)
          = (if a = 0 then map (Cons a) (filter (list_all (\<lambda>x. x = 0)) ds) else [])"
    for a :: int and ds
    by (induction ds) auto
  then show ?case using Suc by (simp add: directions_Suc)
qed

lemma length_directions: "length (directions r) = 3 ^ r"
  by (induction r) (simp_all add: directions_Suc, simp add: directions_def)

lemma nonzero_directions:
  "length (filter (\<lambda>d. \<not> list_all (\<lambda>x. x = 0) d) (directions r)) = 3 ^ r - 1"
proof -
  have "length (filter (list_all (\<lambda>x. x = 0)) (directions r))
          + length (filter (\<lambda>d. \<not> list_all (\<lambda>x. x = 0) d) (directions r))
        = length (directions r)"
    by (rule sum_length_filter_compl)
  then show ?thesis by (simp add: zero_direction length_directions)
qed

text \<open>
  C2 (amended). Each offset of a sweep reads the field and the distance as the offsets before it
  left them: a step of the loop is the snapshot step taken from the running pair, so the last
  offset of a sweep reads the result of all the offsets before it, and the two kinds of sweep
  agree when there is a single offset. The all-zero offset changes nothing, and the other
  offsets of a sweep are \<open>3 ^ r - 1\<close> in number.
\<close>

theorem sweep_reads_running_state:
  "relax_step dx signs dims d st = snapshot_step dx signs dims st d st
   \<and> sweep dx signs dims (ds @ [d]) st =
       snapshot_step dx signs dims (sweep dx signs dims ds st) d (sweep dx signs dims ds st)
   \<and> sweep dx signs dims [d] st = snapshot_sweep dx signs dims [d] st
   \<and> relax_step dx signs dims (replicate r 0) st = st
   \<and> length (filter (\<lambda>d. \<not> list_all (\<lambda>x. x = 0) d) (directions r)) = 3 ^ r - 1"
proof -
  have "relax_step dx signs dims (replicate r 0) st = st"
    by (cases st) (simp add: relax_step_def list_all_iff)
  then show ?thesis
    by (simp add: relax_step_snapshot [symmetric] sweep_def snapshot_sweep_def nonzero_directions)
qed

theorem sweep_reads_running_state_witness:
  "sweep 1 (sign_of mask3) [0, 1] [[- 1, - 1], [- 1, 0]] (tscale 1 fld3, initial_distance mask3 1)
     = snapshot_step 1 (sign_of mask3) [0, 1]
         (sweep 1 (sign_of mask3) [0, 1] [[- 1, - 1]] (tscale 1 fld3, initial_distance mask3 1))
         [- 1, 0]
         (sweep 1 (sign_of mask3) [0, 1] [[- 1, - 1]] (tscale 1 fld3, initial_distance mask3 1))
   \<and> length (filter (\<lambda>d. \<not> list_all (\<lambda>x. x = 0) d) (directions 2)) = 8"
  using sweep_reads_running_state [of 1 "sign_of mask3" "[0, 1]" "[- 1, 0]"
          "(tscale 1 fld3, initial_distance mask3 1)" "[[- 1, - 1]]" 2]
  by simp


section \<open>Pressure projection\<close>



text \<open>
  C5.  For a staggered velocity \<open>divergence_free\<close> extrapolates the velocity two cells outward
  from the active mask, applies the hard boundary conditions, solves for the pressure from that
  extrapolated velocity, subtracts the pressure gradient from the velocity it was given and
  applies the hard boundary conditions again.  A state passed as \<open>state\<close> receives the pressure
  and the iteration count; the returned velocity is the same with and without it.
\<close>

theorem divergence_free_steps:
  "divergence_free env (FieldObj (Staggered v)) dc ps sink =
     (let ext = field_tensor (snd (extrapolate (Staggered v) (dc_active dc) 1 2));
          ext_bc = with_hard_boundary_conditions env dc ext;
          pi = solve env (case ps of None \<Rightarrow> SparseCG env | Some x \<Rightarrow> x)
                 (sg_divergence env ext_bc) dc None;
          v' = with_hard_boundary_conditions env dc (sg_sub env v (sg_gradient env (fst pi)))
      in Inr (FieldObj (Staggered v'),
              map_option (\<lambda>st. st\<lparr>last_pressure := Some (fst pi),
                                   last_pressure_iterations := Some (snd pi)\<rparr>) sink))
   \<and> map_sum id fst (divergence_free env (FieldObj (Staggered v)) dc ps (Some st))
       = map_sum id fst (divergence_free env (FieldObj (Staggered v)) dc ps None)"
  by (simp add: solve_pressure_def Let_def split: option.splits prod.splits)

theorem divergence_free_steps_witness:
  "map_sum id snd (divergence_free env0 (FieldObj (Staggered (zeros [1, 4, 1]))) cache0 (Some 3)
       (Some state0))
     = Inr (Some (state0\<lparr>last_pressure :=
                     Some (tscale 3 (field_tensor (snd (extrapolate (Staggered (zeros [1, 4, 1]))
                                                     (zeros [1, 3, 1]) 1 2)))),
                   last_pressure_iterations := Some 3\<rparr>))
   \<and> map_sum id fst (divergence_free env0 (FieldObj (Staggered (zeros [1, 4, 1]))) cache0 (Some 3)
         (Some state0))
       = map_sum id fst (divergence_free env0 (FieldObj (Staggered (zeros [1, 4, 1]))) cache0
           (Some 3) None)"
proof -
  have e: "with_hard_boundary_conditions env0 = (\<lambda>c v. v)" "sg_divergence env0 = (\<lambda>v. v)"
    "sg_gradient env0 = (\<lambda>p. p)" "sg_sub env0 = tmap2 (-)"
    "solve env0 = (\<lambda>s d c g. (tscale (real s) d, s))" "dc_active cache0 = zeros [1, 3, 1]"
    by (simp_all add: env0_def cache0_def)
  show ?thesis
    by (simp add: divergence_free_steps [THEN conjunct1] e Let_def del: divergence_free.simps)
qed

text \<open>
  C10.  Called with a state object, \<open>divergence_free\<close> calls itself on the velocity of the state
  with the domain cache only: the solver it was given plays no part and the default solver
  \<open>SparseCG\<close> solves for the pressure; the object passed as \<open>state\<close> comes back as it was, and
  the state in the result carries the last pressure and iteration count of the state given.
\<close>

theorem divergence_free_state_ignores_solver:
  "(velocity st = Staggered v \<longrightarrow>
      divergence_free env (StateObj st) dc ps sink =
        (let ext_bc = with_hard_boundary_conditions env dc
                        (field_tensor (snd (extrapolate (Staggered v) (dc_active dc) 1 2)));
             p = fst (solve env (SparseCG env) (sg_divergence env ext_bc) dc None)
         in Inr (StateObj (st\<lparr>velocity := Staggered (with_hard_boundary_conditions env dc
                                               (sg_sub env v (sg_gradient env p)))\<rparr>), sink)))
   \<and> divergence_free env (StateObj st) dc ps sink = divergence_free env (StateObj st) dc ps' sink
   \<and> (\<forall>r sink'. divergence_free env (StateObj st) dc ps sink = Inr (r, sink') \<longrightarrow>
        sink' = sink
        \<and> (\<exists>st'. r = StateObj st' \<and> last_pressure st' = last_pressure st
                 \<and> last_pressure_iterations st' = last_pressure_iterations st))"
  by (cases "velocity st")
    (auto simp: solve_pressure_def Let_def copied_with_velocity_def
          split: option.splits prod.splits sum.splits obj.splits)

theorem divergence_free_state_ignores_solver_witness:
  "divergence_free env0 (StateObj state0) cache0 (Some 3) (Some state1) =
     Inr (StateObj (state0\<lparr>velocity := Staggered (tmap2 (-) (zeros [1, 4, 1])
            (tscale 0 (field_tensor (snd (extrapolate (Staggered (zeros [1, 4, 1]))
                                            (zeros [1, 3, 1]) 1 2)))))\<rparr>),
          Some state1)
   \<and> divergence_free env0 (StateObj state0) cache0 (Some 3) (Some state1)
       = divergence_free env0 (StateObj state0) cache0 None (Some state1)"
proof -
  have e: "with_hard_boundary_conditions env0 = (\<lambda>c v. v)" "sg_divergence env0 = (\<lambda>v. v)"
    "sg_gradient env0 = (\<lambda>p. p)" "sg_sub env0 = tmap2 (-)" "SparseCG env0 = 0"
    "solve env0 = (\<lambda>s d c g. (tscale (real s) d, s))" "dc_active cache0 = zeros [1, 3, 1]"
    by (simp_all add: env0_def cache0_def)
  have v: "velocity state0 = Staggered (zeros [1, 4, 1])" by (simp add: state0_def)
  note t = divergence_free_state_ignores_solver
             [of state0 "zeros [1, 4, 1]" env0 cache0 "Some 3" "Some state1" None]
  from t v have
    "divergence_free env0 (StateObj state0) cache0 (Some 3) (Some state1) =
       (let ext_bc = with_hard_boundary_conditions env0 cache0
                       (field_tensor (snd (extrapolate (Staggered (zeros [1, 4, 1]))
                                             (dc_active cache0) 1 2)));
            p = fst (solve env0 (SparseCG env0) (sg_divergence env0 ext_bc) cache0 None)
        in Inr (StateObj (state0\<lparr>velocity := Staggered (with_hard_boundary_conditions env0 cache0
                                  (sg_sub env0 (zeros [1, 4, 1]) (sg_gradient env0 p)))\<rparr>),
                Some state1))"
    by blast
  moreover from t have
    "divergence_free env0 (StateObj state0) cache0 (Some 3) (Some state1)
       = divergence_free env0 (StateObj state0) cache0 None (Some state1)"
    by blast
  ultimately show ?thesis
    by (simp add: e Let_def del: divergence_free.simps)
qed

section \<open>The step\<close>








lemma density_with_inflow_cache [simp]:
  "density_with_inflow env (st\<lparr>domaincache := c\<rparr>) dt inflows = density_with_inflow env st dt inflows"
  by (simp add: density_with_inflow_def inflow_density_def grid_def)









end
